theory Spec2Isabelle
  imports Main
begin

section \<open>Errors\<close>

text \<open>
  Go error values. \<open>io_EOF\<close> is \<^verbatim>\<open>io.EOF\<close>, \<open>context_Canceled\<close> is
  \<^verbatim>\<open>context.Canceled\<close>, \<open>ErrorString\<close> is any other plain error and
  \<open>Wrapf msg e\<close> is \<^verbatim>\<open>fmt.Errorf(msg + ": %w", e)\<close>. A Go \<^verbatim>\<open>error\<close> that may be
  \<^verbatim>\<open>nil\<close> is an \<open>error option\<close>.
\<close>

datatype error =
    io_EOF
  | context_Canceled
  | context_DeadlineExceeded
  | ErrorString string
  | Wrapf string error

text \<open>\<^verbatim>\<open>errors.Is\<close>: the target is the error itself or one it wraps.\<close>

fun unwraps_to :: "error \<Rightarrow> error \<Rightarrow> bool" where
  "unwraps_to (Wrapf msg e) target = (Wrapf msg e = target \<or> unwraps_to e target)"
| "unwraps_to e target = (e = target)"

definition errors_Is :: "error option \<Rightarrow> error \<Rightarrow> bool" where
  "errors_Is e target = (case e of None \<Rightarrow> False | Some e' \<Rightarrow> unwraps_to e' target)"

section \<open>Position and Token\<close>

text \<open>
  Modelled from the spec: the declarations of \<^verbatim>\<open>Position\<close>, \<^verbatim>\<open>Token\<close>, \<^verbatim>\<open>TokenType\<close> and
  \<^verbatim>\<open>TokenTypeEOF\<close> are not among the sources. A position is
  \<open>{ filename, offset, line, column }\<close>; a token is \<open>{ type, value, start, end }\<close>; the token
  type is a user-defined tag with one reserved sentinel \<open>EOF\<close> distinct from all user types.
  Go's \<^verbatim>\<open>int\<close> is taken as unbounded. A rune is its code point; the rune sentinel
  \<^verbatim>\<open>EOF\<close> is \<open>-1\<close>. A Go string is the list of its runes.
\<close>

type_synonym rune = int

definition EOF :: rune where
  "EOF = -1"

record Position =
  Filename :: string
  Offset :: int
  Line :: int
  Column :: int

datatype TokenType = TokenTypeEOF | TokenTypeUser int

record Token =
  Type :: TokenType
  Value :: "rune list"
  Start :: Position
  End :: Position

section \<open>The rune reader\<close>

text \<open>
  Modelled from the spec: \<^verbatim>\<open>runeio.RuneReader\<close> is an external package, not among the
  sources. The reader delivers the runes \<open>upcoming\<close> and then ends with the error
  \<open>ending\<close> (\<open>io_EOF\<close> for a clean end of input, anything else for an I/O failure).
  \<^verbatim>\<open>Peek(n)\<close> returns up to \<open>n\<close> runes without consuming them, and the ending error when
  fewer than \<open>n\<close> are left; \<^verbatim>\<open>Discard(n)\<close> consumes up to \<open>n\<close> runes and reports how many;
  \<^verbatim>\<open>ReadRune\<close> consumes one rune. What \<^verbatim>\<open>Buffered()\<close> answers depends on the buffering of
  the underlying stream, so it is a parameter: \<open>nbuf k\<close> is the answer after \<open>k\<close> earlier
  calls of the reader.
\<close>

record RuneReader =
  upcoming :: "rune list"
  ending :: error
  nbuf :: "nat \<Rightarrow> nat"
  calls :: nat

definition RuneReader_Buffered :: "RuneReader \<Rightarrow> nat" where
  "RuneReader_Buffered rd = nbuf rd (calls rd)"

definition RuneReader_Peek :: "nat \<Rightarrow> RuneReader \<Rightarrow> (rune list \<times> error option) \<times> RuneReader" where
  "RuneReader_Peek n rd =
     (if n \<le> length (upcoming rd)
      then ((take n (upcoming rd), None), rd\<lparr>calls := calls rd + 1\<rparr>)
      else ((upcoming rd, Some (ending rd)), rd\<lparr>calls := calls rd + 1\<rparr>))"

definition RuneReader_Discard :: "nat \<Rightarrow> RuneReader \<Rightarrow> (nat \<times> error option) \<times> RuneReader" where
  "RuneReader_Discard n rd =
     (if n \<le> length (upcoming rd)
      then ((n, None), rd\<lparr>upcoming := drop n (upcoming rd), calls := calls rd + 1\<rparr>)
      else ((length (upcoming rd), Some (ending rd)),
            rd\<lparr>upcoming := [], calls := calls rd + 1\<rparr>))"

definition RuneReader_ReadRune :: "RuneReader \<Rightarrow> (rune \<times> error option) \<times> RuneReader" where
  "RuneReader_ReadRune rd =
     (case upcoming rd of
        [] \<Rightarrow> ((0, Some (ending rd)), rd\<lparr>calls := calls rd + 1\<rparr>)
      | rn # rest \<Rightarrow> ((rn, None), rd\<lparr>upcoming := rest, calls := calls rd + 1\<rparr>))"

section \<open>CustomLexer: the rune cursor\<close>

text \<open>
  The struct \<^verbatim>\<open>CustomLexer\<close> without its field \<^verbatim>\<open>state\<close>: a lexer state is a function over
  the lexer, so the current state is kept beside this record (see \<open>NextToken\<close>). The
  methods of \<^verbatim>\<open>CustomLexerContext\<close> reach every field below and never the state.
\<close>

record CustomLexer =
  buf :: "Token list"
  r :: RuneReader
  b :: "rune list"
  pos :: Position
  cursor :: Position
  err :: "error option"

definition NewCustomLexer :: "string \<Rightarrow> RuneReader \<Rightarrow> CustomLexer" where
  \<comment> \<open>\<open>fileName\<close> is the name of the file when the reader is an \<^verbatim>\<open>*os.File\<close>, else empty.\<close>
  "NewCustomLexer fileName reader =
     \<lparr> buf = [],
       r = reader,
       b = [],
       pos = \<lparr> Filename = fileName, Offset = 0, Line = 1, Column = 1 \<rparr>,
       cursor = \<lparr> Filename = fileName, Offset = 0, Line = 1, Column = 1 \<rparr>,
       err = None \<rparr>"

definition setErr :: "error option \<Rightarrow> CustomLexer \<Rightarrow> CustomLexer" where
  "setErr e l = (if err l = None \<and> \<not> errors_Is e io_EOF then l\<lparr>err := e\<rparr> else l)"

definition Err :: "CustomLexer \<Rightarrow> error option" where
  "Err l = err l"

definition ignore :: "CustomLexer \<Rightarrow> CustomLexer" where
  "ignore l = l\<lparr>cursor := pos l, b := []\<rparr>"

definition newToken :: "TokenType \<Rightarrow> CustomLexer \<Rightarrow> Token" where
  "newToken typ l = \<lparr> Type = typ, Value = b l, Start = cursor l, End = pos l \<rparr>"

definition emit :: "TokenType \<Rightarrow> CustomLexer \<Rightarrow> Token option \<times> CustomLexer" where
  "emit typ l =
     (if err l \<noteq> None then (None, l)
      else let token = newToken typ l
           in (Some token, ignore (l\<lparr>buf := buf l @ [token]\<rparr>)))"

definition peekN :: "nat \<Rightarrow> CustomLexer \<Rightarrow> rune list \<times> CustomLexer" where
  "peekN n l =
     (if err l \<noteq> None then ([], l)
      else let ((p, e), rd) = RuneReader_Peek n (r l)
           in (p, setErr e (l\<lparr>r := rd\<rparr>)))"

definition nextRune :: "CustomLexer \<Rightarrow> rune \<times> CustomLexer" where
  "nextRune l =
     (if err l \<noteq> None then (EOF, l)
      else let ((rn, e), rd) = RuneReader_ReadRune (r l); l1 = l\<lparr>r := rd\<rparr>
           in if e \<noteq> None then (EOF, setErr e l1)
              else let p1 = (pos l1)\<lparr>Offset := Offset (pos l1) + 1\<rparr>;
                       p2 = p1\<lparr>Column := Column p1 + 1\<rparr>;
                       p3 = (if rn = 10 then p2\<lparr>Line := Line p2 + 1, Column := 1\<rparr> else p2)
                   in (rn, l1\<lparr>pos := p3, b := b l1 @ [rn]\<rparr>))"

text \<open>
  The inner loop of \<^verbatim>\<open>advance\<close> over the runes just discarded: a newline starts a new line,
  any other rune moves one column on.
\<close>

fun count_lines :: "rune list \<Rightarrow> Position \<Rightarrow> Position" where
  "count_lines [] p = p"
| "count_lines (rn # rns) p =
     count_lines rns
       (if rn = 10 then p\<lparr>Line := Line p + 1, Column := 1\<rparr> else p\<lparr>Column := Column p + 1\<rparr>)"

text \<open>
  The outer loop of \<^verbatim>\<open>advance\<close>. A negative \<^verbatim>\<open>numRunes\<close> runs it zero times, as \<open>0\<close> does, so
  the count is a \<open>nat\<close>. The result is \<^verbatim>\<open>advanced\<close>.
\<close>

function advance_loop :: "nat \<Rightarrow> bool \<Rightarrow> nat \<Rightarrow> CustomLexer \<Rightarrow> nat \<times> CustomLexer" where
  "advance_loop numRunes discard advanced l =
     (if numRunes > 0 then
        let toRead0 = min (RuneReader_Buffered (r l)) numRunes;
            toRead = (if toRead0 = 0 then min numRunes 16 else toRead0);
            ((peekedRunes, peekErr), rd1) = RuneReader_Peek toRead (r l)
        in if peekErr \<noteq> None \<and> \<not> errors_Is peekErr io_EOF
           then (advanced, setErr (Some (Wrapf ''peeking input'' (the peekErr))) (l\<lparr>r := rd1\<rparr>))
           else
             let ((numDiscarded, dErr), rd2) = RuneReader_Discard (length peekedRunes) rd1;
                 advanced1 = advanced + numDiscarded;
                 p1 = (pos l)\<lparr>Offset := Offset (pos l) + int numDiscarded\<rparr>;
                 p2 = count_lines (take numDiscarded peekedRunes) p1;
                 l1 = l\<lparr>r := rd2, pos := p2\<rparr>;
                 l2 = (if \<not> discard then l1\<lparr>b := b l1 @ peekedRunes\<rparr> else l1)
             in if dErr \<noteq> None
                then (advanced1, setErr (Some (Wrapf ''discarding input'' (the dErr))) l2)
                else if peekErr \<noteq> None then (advanced1, l2)
                else advance_loop (numRunes - numDiscarded) discard advanced1 l2
      else (advanced, l))"
  by pat_completeness auto

termination
  by (relation "measure (\<lambda>(numRunes, discard, advanced, l). numRunes)")
     (auto simp: RuneReader_Peek_def RuneReader_Discard_def Let_def split: if_splits)

text \<open>\<^verbatim>\<open>defer l.ignore()\<close> runs on every return that follows it.\<close>

definition advance :: "nat \<Rightarrow> bool \<Rightarrow> CustomLexer \<Rightarrow> nat \<times> CustomLexer" where
  "advance numRunes discard l =
     (if err l \<noteq> None then (0, l)
      else let (advanced, l1) = advance_loop numRunes discard 0 l
           in (advanced, if discard then ignore l1 else l1))"

definition Width :: "CustomLexer \<Rightarrow> int" where
  \<comment> \<open>\<^verbatim>\<open>CustomLexerContext.Width\<close>\<close>
  "Width l = Offset (pos l) - Offset (cursor l)"

definition Peek :: "CustomLexer \<Rightarrow> rune \<times> CustomLexer" where
  \<comment> \<open>\<^verbatim>\<open>CustomLexerContext.Peek\<close>\<close>
  "Peek l = (let (p, l1) = peekN 1 l in if length p < 1 then (EOF, l1) else (p ! 0, l1))"

section \<open>Searching: find and discardTo\<close>

text \<open>
  \<^verbatim>\<open>len(s)\<close> of a Go string counts the bytes of its UTF-8 encoding; a rune that is not a
  valid code point is encoded as U+FFFD (three bytes).
\<close>

definition rune_len :: "rune \<Rightarrow> nat" where
  "rune_len rn =
     (if rn < 0 then 3
      else if rn < 128 then 1
      else if rn < 2048 then 2
      else if 55296 \<le> rn \<and> rn \<le> 57343 then 3
      else if rn < 65536 then 3
      else if rn \<le> 1114111 then 4
      else 3)"

definition len :: "rune list \<Rightarrow> nat" where
  "len s = sum_list (map rune_len s)"

text \<open>The first loop of \<^verbatim>\<open>find\<close> and of \<^verbatim>\<open>discardTo\<close>: the longest needle, in bytes.\<close>

fun maxLen_of :: "rune list list \<Rightarrow> nat \<Rightarrow> nat" where
  "maxLen_of [] maxLen = maxLen"
| "maxLen_of (q # query) maxLen = maxLen_of query (if len q > maxLen then len q else maxLen)"

text \<open>\<^verbatim>\<open>strings.HasPrefix s prefix\<close>\<close>

fun HasPrefix :: "rune list \<Rightarrow> rune list \<Rightarrow> bool" where
  "HasPrefix s [] = True"
| "HasPrefix [] (x # xs) = False"
| "HasPrefix (y # ys) (x # xs) = (x = y \<and> HasPrefix ys xs)"

text \<open>The loop over \<^verbatim>\<open>query\<close>: the first needle that is a prefix of \<open>s\<close>.\<close>

fun first_match :: "rune list \<Rightarrow> rune list list \<Rightarrow> rune list option" where
  "first_match s [] = None"
| "first_match s (q # query) = (if HasPrefix s q then Some q else first_match s query)"

lemma peekN_upcoming: "peekN n l = (p, l1) \<Longrightarrow> upcoming (r l1) = upcoming (r l)"
  by (auto simp: peekN_def RuneReader_Peek_def setErr_def Let_def split: if_splits)

lemma peekN_nonempty:
  "peekN n l = (p, l1) \<Longrightarrow> p \<noteq> [] \<Longrightarrow> err l = None \<and> upcoming (r l) \<noteq> []"
  by (auto simp: peekN_def RuneReader_Peek_def setErr_def Let_def split: if_splits)

lemma nextRune_upcoming:
  "nextRune l = (rn, l1) \<Longrightarrow>
     (err l = None \<and> upcoming (r l) \<noteq> [] \<longrightarrow> upcoming (r l1) = tl (upcoming (r l))) \<and>
     (err l \<noteq> None \<longrightarrow> l1 = l)"
  by (auto simp: nextRune_def RuneReader_ReadRune_def setErr_def Let_def
           split: if_splits list.splits)

function find_loop :: "nat \<Rightarrow> rune list list \<Rightarrow> CustomLexer \<Rightarrow> rune list \<times> CustomLexer" where
  "find_loop maxLen query l =
     (let (rns, l1) = peekN maxLen l
      in if length rns = 0 then ([], l1)
         else case first_match rns query of
                Some q \<Rightarrow> (q, l1)
              | None \<Rightarrow> find_loop maxLen query (snd (nextRune l1)))"
  by pat_completeness auto

termination
proof (relation "measure (\<lambda>(maxLen, query, l).
          2 * length (upcoming (r l)) + (if err l = None then 1 else 0))", goal_cases)
  case 1
  show ?case by simp
next
  case (2 maxLen query l x rns l1)
  from 2 have pk: "peekN maxLen l = (rns, l1)" by simp
  from 2 have ne: "rns \<noteq> []" by simp
  from peekN_nonempty[OF pk ne] have e: "err l = None" and u: "upcoming (r l) \<noteq> []"
    by simp_all
  from peekN_upcoming[OF pk] have u1: "upcoming (r l1) = upcoming (r l)" .
  obtain rn l2 where nr: "nextRune l1 = (rn, l2)" by (cases "nextRune l1")
  show ?case
  proof (cases "err l1 = None")
    case True
    with nextRune_upcoming[OF nr] u u1 have "upcoming (r l2) = tl (upcoming (r l))"
      by simp
    with u e nr show ?thesis by (cases "upcoming (r l)") auto
  next
    case False
    with nextRune_upcoming[OF nr] have "l2 = l1" by simp
    with False u1 e nr show ?thesis by simp
  qed
qed

declare find_loop.simps [simp del]

definition find' :: "rune list list \<Rightarrow> CustomLexer \<Rightarrow> rune list \<times> CustomLexer" where
  "find' query l =
     (let maxLen = maxLen_of query 0
      in if maxLen = 0 then ([], l) else find_loop maxLen query l)"

section \<open>Coordinate updates, as the specification words them\<close>

text \<open>
  The specification: on every consumed rune, \<open>offset += 1\<close> and \<open>column += 1\<close>; if the rune
  is a newline then, after the increment, \<open>line += 1\<close> and \<open>column = 1\<close>.
\<close>

definition consume_rune :: "rune \<Rightarrow> Position \<Rightarrow> Position" where
  "consume_rune rn p =
     (let p1 = p\<lparr>Offset := Offset p + 1, Column := Column p + 1\<rparr>
      in if rn = 10 then p1\<lparr>Line := Line p1 + 1, Column := 1\<rparr> else p1)"

fun consume_runes :: "rune list \<Rightarrow> Position \<Rightarrow> Position" where
  "consume_runes [] p = p"
| "consume_runes (rn # rns) p = consume_runes rns (consume_rune rn p)"

lemma consume_runes_append:
  "consume_runes (xs @ ys) p = consume_runes ys (consume_runes xs p)"
  by (induction xs arbitrary: p) auto

lemma count_lines_literal:
  "count_lines rns \<lparr>Filename = f, Offset = k + int (length rns), Line = ln, Column = c\<rparr>
   = consume_runes rns \<lparr>Filename = f, Offset = k, Line = ln, Column = c\<rparr>"
proof (induction rns arbitrary: k ln c)
  case Nil
  show ?case by simp
next
  case (Cons rn rns)
  have eq: "k + int (length (rn # rns)) = (k + 1) + int (length rns)" by simp
  show ?case
    unfolding eq by (simp add: consume_rune_def Let_def Cons.IH)
qed

lemma count_lines_consume:
  "count_lines rns (p\<lparr>Offset := Offset p + int (length rns)\<rparr>) = consume_runes rns p"
  using count_lines_literal[of rns "Filename p" "Offset p" "Line p" "Column p"]
  by (cases p) simp

declare advance_loop.simps [simp del]

lemma advance_loop_zero: "advance_loop 0 discard advanced l = (advanced, l)"
  by (subst advance_loop.simps) simp

lemma advance_loop_more:
  assumes "numRunes > 0"
    and "toRead = (let t0 = min (RuneReader_Buffered (r l)) numRunes
                   in if t0 = 0 then min numRunes 16 else t0)"
    and "toRead \<le> length (upcoming (r l))"
  shows "advance_loop numRunes discard advanced l =
         advance_loop (numRunes - toRead) discard (advanced + toRead)
           (l\<lparr>r := (r l)\<lparr>upcoming := drop toRead (upcoming (r l)), calls := calls (r l) + 2\<rparr>,
              pos := consume_runes (take toRead (upcoming (r l))) (pos l),
              b := (if discard then b l else b l @ take toRead (upcoming (r l)))\<rparr>)"
proof -
  have len: "length (take toRead (upcoming (r l))) = toRead"
    using assms(3) by simp
  have cl: "count_lines (take toRead (upcoming (r l))) ((pos l)\<lparr>Offset := Offset (pos l) + int toRead\<rparr>)
            = consume_runes (take toRead (upcoming (r l))) (pos l)"
    using count_lines_consume[of "take toRead (upcoming (r l))" "pos l"] len by simp
  show ?thesis
    using assms cl
    by (subst advance_loop.simps)
       (simp add: Let_def RuneReader_Peek_def RuneReader_Discard_def errors_Is_def)
qed

lemma advance_loop_short:
  assumes "numRunes > 0"
    and "toRead = (let t0 = min (RuneReader_Buffered (r l)) numRunes
                   in if t0 = 0 then min numRunes 16 else t0)"
    and "\<not> toRead \<le> length (upcoming (r l))"
    and "advance_loop numRunes discard advanced l = (n, l1)"
  shows "(n = advanced \<and> upcoming (r l1) = upcoming (r l) \<and> pos l1 = pos l) \<or>
         (n = advanced + length (upcoming (r l)) \<and> upcoming (r l1) = [] \<and>
          pos l1 = consume_runes (upcoming (r l)) (pos l))"
proof -
  have cl: "count_lines (upcoming (r l)) ((pos l)\<lparr>Offset := Offset (pos l) + int (length (upcoming (r l)))\<rparr>)
            = consume_runes (upcoming (r l)) (pos l)"
    by (rule count_lines_consume)
  from assms(4) show ?thesis
    using assms(1-3) cl
    by (subst (asm) advance_loop.simps)
       (auto simp: Let_def RuneReader_Peek_def RuneReader_Discard_def setErr_def
             split: if_splits)
qed

lemma advance_loop_consumes:
  "advance_loop numRunes discard advanced l = (n, l1) \<Longrightarrow>
     \<exists>k. n = advanced + k \<and> k \<le> numRunes \<and> k \<le> length (upcoming (r l)) \<and>
         upcoming (r l1) = drop k (upcoming (r l)) \<and>
         pos l1 = consume_runes (take k (upcoming (r l))) (pos l)"
proof (induction numRunes arbitrary: advanced l n l1 rule: less_induct)
  case (less numRunes)
  show ?case
  proof (cases "numRunes > 0")
    case False
    with less.prems show ?thesis by (auto simp: advance_loop_zero intro: exI[of _ 0])
  next
    case True
    define toRead where "toRead = (let t0 = min (RuneReader_Buffered (r l)) numRunes
                   in if t0 = 0 then min numRunes 16 else t0)"
    have tr: "0 < toRead" "toRead \<le> numRunes"
      using True by (auto simp: toRead_def Let_def)
    show ?thesis
    proof (cases "toRead \<le> length (upcoming (r l))")
      case le: True
      let ?l' = "l\<lparr>r := (r l)\<lparr>upcoming := drop toRead (upcoming (r l)), calls := calls (r l) + 2\<rparr>,
              pos := consume_runes (take toRead (upcoming (r l))) (pos l),
              b := (if discard then b l else b l @ take toRead (upcoming (r l)))\<rparr>"
      from advance_loop_more[OF True toRead_def le, of discard advanced] less.prems
      have "advance_loop (numRunes - toRead) discard (advanced + toRead) ?l' = (n, l1)"
        by simp
      from less.IH[OF _ this] tr
      obtain k where k: "n = advanced + toRead + k" "k \<le> numRunes - toRead"
        "k \<le> length (upcoming (r ?l'))"
        "upcoming (r l1) = drop k (upcoming (r ?l'))"
        "pos l1 = consume_runes (take k (upcoming (r ?l'))) (pos ?l')"
        by auto
      have tk: "take (toRead + k) (upcoming (r l))
                = take toRead (upcoming (r l)) @ take k (drop toRead (upcoming (r l)))"
        by (simp add: take_add)
      have c: "pos l1 = consume_runes (take (toRead + k) (upcoming (r l))) (pos l)"
        using k(5) by (simp add: tk consume_runes_append)
      have d: "upcoming (r l1) = drop (toRead + k) (upcoming (r l))"
        using k(4) by (simp add: add.commute)
      have e: "n = advanced + (toRead + k)" "toRead + k \<le> numRunes"
        "toRead + k \<le> length (upcoming (r l))"
        using k(1,2,3) tr le by simp_all
      show ?thesis
        using c d e by blast
    next
      case gt: False
      from advance_loop_short[OF True toRead_def gt less.prems]
      show ?thesis
      proof
        assume "n = advanced \<and> upcoming (r l1) = upcoming (r l) \<and> pos l1 = pos l"
        then show ?thesis by (intro exI[of _ 0]) simp
      next
        assume "n = advanced + length (upcoming (r l)) \<and> upcoming (r l1) = [] \<and>
                pos l1 = consume_runes (upcoming (r l)) (pos l)"
        then show ?thesis using gt tr
          by (intro exI[of _ "length (upcoming (r l))"]) simp
      qed
    qed
  qed
qed

lemma advance_consumes:
  "advance numRunes discard l = (n, l1) \<Longrightarrow>
     n \<le> numRunes \<and> n \<le> length (upcoming (r l)) \<and>
     upcoming (r l1) = drop n (upcoming (r l)) \<and>
     pos l1 = consume_runes (take n (upcoming (r l))) (pos l)"
proof (cases "err l \<noteq> None")
  case True
  assume "advance numRunes discard l = (n, l1)"
  with True show ?thesis by (simp add: advance_def)
next
  case False
  assume a: "advance numRunes discard l = (n, l1)"
  obtain m l2 where lp: "advance_loop numRunes discard 0 l = (m, l2)"
    by (cases "advance_loop numRunes discard 0 l")
  from a False lp have n: "n = m" and l1: "l1 = (if discard then ignore l2 else l2)"
    by (simp_all add: advance_def)
  from l1 have same: "r l1 = r l2" "pos l1 = pos l2" by (simp_all add: ignore_def)
  from advance_loop_consumes[OF lp] n same show ?thesis by auto
qed

text \<open>
  The loop over the windows \<^verbatim>\<open>rns[i:i+maxLen]\<close> of \<^verbatim>\<open>discardTo\<close>, \<open>k\<close> windows from index
  \<open>i\<close> on: the first index with a matching needle, and the needle.
\<close>

fun search_windows ::
  "nat \<Rightarrow> nat \<Rightarrow> nat \<Rightarrow> rune list \<Rightarrow> rune list list \<Rightarrow> (nat \<times> rune list) option" where
  "search_windows 0 i maxLen rns query = None"
| "search_windows (Suc k) i maxLen rns query =
     (case first_match (take maxLen (drop i rns)) query of
        Some q \<Rightarrow> Some (i, q)
      | None \<Rightarrow> search_windows k (Suc i) maxLen rns query)"

function discardTo_loop :: "nat \<Rightarrow> rune list list \<Rightarrow> CustomLexer \<Rightarrow> rune list \<times> CustomLexer" where
  "discardTo_loop maxLen query l =
     (let bufS = max (RuneReader_Buffered (r l)) maxLen;
          (rns, l1) = peekN bufS l
      in case search_windows (nat (int (length rns) - int maxLen + 1)) 0 maxLen rns query of
           Some (i, q) \<Rightarrow>
             (let (n, l2) = advance i True l1 in if n < i then ([], l2) else (q, l2))
         | None \<Rightarrow>
             (let toDiscard0 = int (length rns) - int maxLen + 1;
                  toDiscard = (if toDiscard0 \<le> 0 then 1 else nat toDiscard0);
                  (n, l2) = advance toDiscard True l1
              in if n < toDiscard then ([], l2) else discardTo_loop maxLen query l2))"
  by pat_completeness auto

termination
proof (relation "measure (\<lambda>(maxLen, query, l). length (upcoming (r l)))", goal_cases)
  case 1
  show ?case by simp
next
  case (2 maxLen query l bufS x rns l1 toDiscard0 toDiscard y n l2)
  from 2 have pk: "peekN bufS l = (rns, l1)" by simp
  from 2 have ad: "advance toDiscard True l1 = (n, l2)" by simp
  from 2 have pos: "0 < toDiscard" by (simp split: if_splits)
  from 2 have ge: "\<not> n < toDiscard" by simp
  from advance_consumes[OF ad] have "n \<le> length (upcoming (r l1))"
    and "upcoming (r l2) = drop n (upcoming (r l1))" by simp_all
  with peekN_upcoming[OF pk] pos ge show ?case by simp
qed

declare discardTo_loop.simps [simp del]

definition discardTo :: "rune list list \<Rightarrow> CustomLexer \<Rightarrow> rune list \<times> CustomLexer" where
  "discardTo query l =
     (let maxLen = maxLen_of query 0
      in if maxLen = 0 then ([], l) else discardTo_loop maxLen query l)"

section \<open>The methods of CustomLexerContext\<close>

definition Advance :: "CustomLexer \<Rightarrow> bool \<times> CustomLexer" where
  "Advance l = (let (n, l1) = advance 1 False l in (n = 1, l1))"

definition AdvanceN :: "nat \<Rightarrow> CustomLexer \<Rightarrow> nat \<times> CustomLexer" where
  "AdvanceN n l = advance n False l"

definition Discard :: "CustomLexer \<Rightarrow> bool \<times> CustomLexer" where
  "Discard l = (let (n, l1) = advance 1 True l in (n = 1, l1))"

definition DiscardN :: "nat \<Rightarrow> CustomLexer \<Rightarrow> nat \<times> CustomLexer" where
  "DiscardN n l = advance n True l"

definition PeekN :: "nat \<Rightarrow> CustomLexer \<Rightarrow> rune list \<times> CustomLexer" where
  "PeekN n l = peekN n l"

definition Emit :: "TokenType \<Rightarrow> CustomLexer \<Rightarrow> Token option \<times> CustomLexer" where
  "Emit typ l = emit typ l"

section \<open>The lexer driver\<close>

text \<open>
  A lexer state: \<^verbatim>\<open>Run\<close> works on the lexer through the context and returns the next
  state (\<open>None\<close> is the \<^verbatim>\<open>nil\<close> state) and an error.
\<close>

datatype LexState =
  LexStateFn (Run: "CustomLexer \<Rightarrow> (LexState option \<times> error option) \<times> CustomLexer")

text \<open>The end of \<^verbatim>\<open>NextToken\<close>, after its loop.\<close>

definition NextToken_return ::
  "LexState option \<Rightarrow> CustomLexer \<Rightarrow> Token \<times> LexState option \<times> CustomLexer" where
  "NextToken_return state l =
     (case buf l of
        token # rest \<Rightarrow>
          (if Type token \<noteq> TokenTypeEOF then (token, state, l\<lparr>buf := rest\<rparr>)
           else (token, state, l))
      | [] \<Rightarrow> (newToken TokenTypeEOF l, state, l))"

text \<open>
  The loop of \<^verbatim>\<open>NextToken\<close>. It may run forever (a state that never emits and never
  stops), so it runs on fuel: one unit for each pass, \<open>None\<close> when the fuel is used up.
  \<open>ctx i\<close> is what the \<open>i\<close>-th poll of the context finds: \<open>None\<close> while it is not done, else
  \<^verbatim>\<open>ctx.Err()\<close>.
\<close>

fun NextToken_loop ::
  "nat \<Rightarrow> (nat \<Rightarrow> error option) \<Rightarrow> nat \<Rightarrow> LexState option \<Rightarrow> CustomLexer \<Rightarrow>
   (Token \<times> LexState option \<times> CustomLexer) option" where
  "NextToken_loop 0 ctx i state l =
     (if length (buf l) = 0 \<and> state \<noteq> None then None
      else Some (NextToken_return state l))"
| "NextToken_loop (Suc fuel) ctx i state l =
     (if length (buf l) = 0 \<and> state \<noteq> None then
        (case ctx i of
           Some e \<Rightarrow>
             (let l1 = setErr (Some e) l in Some (newToken TokenTypeEOF l1, state, l1))
         | None \<Rightarrow>
             (let ((state1, e), l1) = Run (the state) l;
                  l2 = setErr e l1
              in if err l2 \<noteq> None then Some (newToken TokenTypeEOF l2, state1, l2)
                 else NextToken_loop fuel ctx (i + 1) state1 l2))
      else Some (NextToken_return state l))"

definition NextToken ::
  "nat \<Rightarrow> (nat \<Rightarrow> error option) \<Rightarrow> LexState option \<Rightarrow> CustomLexer \<Rightarrow>
   (Token \<times> LexState option \<times> CustomLexer) option" where
  "NextToken fuel ctx state l =
     (if err l \<noteq> None then Some (newToken TokenTypeEOF l, state, l)
      else NextToken_loop fuel ctx 0 state l)"

section \<open>The coordinator\<close>

text \<open>
  \<^verbatim>\<open>LexParse\<close> runs the lexer and the parser in two goroutines, waits for both, and then
  chooses the error to return from the lexer's error \<open>lexErr\<close> and the parser's error
  \<open>parseErr\<close>. That choice, the code after \<^verbatim>\<open>waitGrp.Wait()\<close>, is \<open>LexParse_err\<close>; the root is
  the parser's root whatever the errors are.
\<close>

definition LexParse_err :: "error option \<Rightarrow> error option \<Rightarrow> error option" where
  "LexParse_err lexErr parseErr =
     (let err0 = lexErr
      in if err0 = None \<or> errors_Is err0 context_Canceled \<or> errors_Is err0 io_EOF
         then parseErr else err0)"

section \<open>The parser\<close>

text \<open>
  Nodes live in a heap: a \<^verbatim>\<open>*Node[V]\<close> is \<open>Some a\<close> for the node at index \<open>a\<close> of the heap, or
  \<open>None\<close> for \<^verbatim>\<open>nil\<close>; \<^verbatim>\<open>&Node[V]{...}\<close> appends a node to the heap. A \<^verbatim>\<open>nil\<close> slice of
  children is \<open>None\<close>.
\<close>

type_synonym ref = nat

record 'v Node =
  Parent :: "ref option"
  Children :: "ref list option"
  NodeValue :: 'v
  NodeStart :: Position

text \<open>
  The struct \<^verbatim>\<open>Parser\<close> with the heap of its nodes. The token source answers its \<open>k\<close>-th
  call with \<open>tokens k\<close>; \<open>fetched\<close> counts the calls. The field \<^verbatim>\<open>next\<close> is \<open>next_token\<close>.
  The state stack is left out: no operation on the tree or the tokens reads it.
\<close>

record 'v Parser =
  tokens :: "nat \<Rightarrow> Token"
  fetched :: nat
  root :: "ref option"
  node :: "ref option"
  token :: "Token option"
  next_token :: "Token option"
  heap :: "'v Node list"

text \<open>The zero value of \<^verbatim>\<open>Position\<close>, which \<^verbatim>\<open>var start Position\<close> declares.\<close>

definition zero_Position :: Position where
  "zero_Position = \<lparr> Filename = [], Offset = 0, Line = 0, Column = 0 \<rparr>"

text \<open>
  Reading through a pointer. A pointer to no node of the heap does not exist in Go; the
  model treats it as \<^verbatim>\<open>nil\<close>, whose dereference panics (\<open>None\<close>).
\<close>

definition deref :: "'v Node list \<Rightarrow> ref \<Rightarrow> 'v Node option" where
  "deref h a = (if a < length h then Some (h ! a) else None)"

definition NewParser :: "'v \<Rightarrow> (nat \<Rightarrow> Token) \<Rightarrow> 'v Parser" where
  \<comment> \<open>\<open>zero\<close> is the zero value of the type \<open>V\<close>, the value of the first root.\<close>
  "NewParser zero toks =
     \<lparr> tokens = toks, fetched = 0, root = Some 0, node = Some 0,
       token = None, next_token = None,
       heap = [\<lparr> Parent = None, Children = None, NodeValue = zero,
                 NodeStart = \<lparr> Filename = [], Offset = 0, Line = 1, Column = 1 \<rparr> \<rparr>] \<rparr>"

definition setRoot :: "ref option \<Rightarrow> 'v Parser \<Rightarrow> 'v Parser" where
  "setRoot rt p = p\<lparr>root := rt, node := rt\<rparr>"

definition peek :: "'v Parser \<Rightarrow> Token \<times> 'v Parser" where
  "peek p =
     (case next_token p of
        Some t \<Rightarrow> (t, p)
      | None \<Rightarrow>
          (let t = tokens p (fetched p)
           in (t, p\<lparr>next_token := Some t, fetched := fetched p + 1\<rparr>)))"

definition nextToken :: "'v Parser \<Rightarrow> Token \<times> 'v Parser" where
  "nextToken p = (let (l, p1) = peek p in (l, p1\<lparr>next_token := None, token := Some l\<rparr>))"

definition newNode :: "'v \<Rightarrow> 'v Parser \<Rightarrow> ref \<times> 'v Parser" where
  "newNode v p =
     (let start = (case token p of None \<Rightarrow> zero_Position | Some t \<Rightarrow> Start t)
      in (length (heap p),
          p\<lparr>heap := heap p @ [\<lparr> Parent = None, Children = None, NodeValue = v,
                                 NodeStart = start \<rparr>]\<rparr>))"

definition addNodeHere :: "'v \<Rightarrow> 'v Parser \<Rightarrow> (ref \<times> 'v Parser) option" where
  "addNodeHere v p =
     (let (n, p1) = newNode v p
      in case node p1 of
           None \<Rightarrow> None
         | Some cur \<Rightarrow>
             (case deref (heap p1) cur of
                None \<Rightarrow> None
              | Some curN \<Rightarrow>
                  (let cs = (case Children curN of None \<Rightarrow> [] | Some xs \<Rightarrow> xs);
                       h1 = (heap p1)[cur := curN\<lparr>Children := Some (cs @ [n])\<rparr>];
                       h2 = h1[n := (h1 ! n)\<lparr>Parent := Some cur\<rparr>]
                   in Some (n, p1\<lparr>heap := h2\<rparr>))))"

definition push :: "'v \<Rightarrow> 'v Parser \<Rightarrow> (ref \<times> 'v Parser) option" where
  "push v p =
     (case addNodeHere v p of
        None \<Rightarrow> None
      | Some (n, p1) \<Rightarrow> Some (n, p1\<lparr>node := Some n\<rparr>))"

definition climb :: "'v Parser \<Rightarrow> (ref \<times> 'v Parser) option" where
  "climb p =
     (case node p of
        None \<Rightarrow> None
      | Some n \<Rightarrow>
          (case deref (heap p) n of
             None \<Rightarrow> None
           | Some curN \<Rightarrow>
               (if Parent curN \<noteq> None then Some (n, p\<lparr>node := Parent curN\<rparr>)
                else Some (n, p))))"

text \<open>
  The first loop of \<^verbatim>\<open>replace\<close>: the first entry of the parent's children that is the
  current node becomes the new node.
\<close>

fun replace_first :: "ref \<Rightarrow> ref \<Rightarrow> ref list \<Rightarrow> ref list" where
  "replace_first old new [] = []"
| "replace_first old new (c # cs) =
     (if c = old then new # cs else c # replace_first old new cs)"

text \<open>The second loop of \<^verbatim>\<open>replace\<close>: every child's parent becomes the new node.\<close>

fun rewire :: "ref \<Rightarrow> ref list \<Rightarrow> 'v Node list \<Rightarrow> 'v Node list option" where
  "rewire n [] h = Some h"
| "rewire n (c # cs) h =
     (case deref h c of
        None \<Rightarrow> None
      | Some cN \<Rightarrow> rewire n cs (h[c := cN\<lparr>Parent := Some n\<rparr>]))"

definition replace :: "'v \<Rightarrow> 'v Parser \<Rightarrow> ('v \<times> 'v Parser) option" where
  "replace v p =
     (let (n, p1) = newNode v p
      in case node p1 of
           None \<Rightarrow> None
         | Some cur \<Rightarrow>
             (case deref (heap p1) cur of
                None \<Rightarrow> None
              | Some curN \<Rightarrow>
                  (let h1 = (heap p1)[n := (heap p1 ! n)\<lparr>Parent := Parent curN\<rparr>];
                       h2 = (case Parent curN of
                               None \<Rightarrow> Some h1
                             | Some par \<Rightarrow>
                                 (case deref h1 par of
                                    None \<Rightarrow> None
                                  | Some parN \<Rightarrow>
                                      Some (h1[par := parN\<lparr>Children :=
                                              map_option (replace_first cur n) (Children parN)\<rparr>])))
                   in case h2 of
                        None \<Rightarrow> None
                      | Some h2 \<Rightarrow>
                          (let h3 = (case Children (h2 ! cur) of
                                       None \<Rightarrow> Some h2
                                     | Some cs \<Rightarrow>
                                         rewire n cs (h2[n := (h2 ! n)\<lparr>Children := Some cs\<rparr>]))
                           in case h3 of
                                None \<Rightarrow> None
                              | Some h3 \<Rightarrow>
                                  (let rt = (if node p1 = root p1 then Some n else root p1);
                                       oldVal = NodeValue (h3 ! cur)
                                   in Some (oldVal, p1\<lparr>heap := h3, root := rt, node := Some n\<rparr>))))))"

section \<open>The calls of a parse state\<close>

text \<open>
  The calls a parse state can make on the parser through its \<^verbatim>\<open>ParserContext\<close>:
  \<^verbatim>\<open>Peek\<close>, \<^verbatim>\<open>Next\<close>, \<^verbatim>\<open>Push\<close>, \<^verbatim>\<open>Node\<close>, \<^verbatim>\<open>NewNode\<close>, \<^verbatim>\<open>Climb\<close>, \<^verbatim>\<open>Replace\<close> and \<^verbatim>\<open>SetRoot\<close>
  (\<^verbatim>\<open>Root\<close> and \<^verbatim>\<open>Pos\<close> only read, \<^verbatim>\<open>PushState\<close> only touches the state stack). \<open>None\<close> is
  a panic.
\<close>

datatype 'v ParserCall =
    CallPeek | CallNext | CallPush 'v | CallNode 'v | CallNewNode 'v | CallClimb
  | CallReplace 'v | CallSetRoot "ref option"

fun call :: "'v ParserCall \<Rightarrow> 'v Parser \<Rightarrow> 'v Parser option" where
  "call CallPeek p = Some (snd (peek p))"
| "call CallNext p = Some (snd (nextToken p))"
| "call (CallPush v) p = map_option snd (push v p)"
| "call (CallNode v) p = map_option snd (addNodeHere v p)"
| "call (CallNewNode v) p = Some (snd (newNode v p))"
| "call CallClimb p = map_option snd (climb p)"
| "call (CallReplace v) p = map_option snd (replace v p)"
| "call (CallSetRoot rt) p = Some (setRoot rt p)"

fun run_calls :: "'v ParserCall list \<Rightarrow> 'v Parser \<Rightarrow> 'v Parser option" where
  "run_calls [] p = Some p"
| "run_calls (c # cs) p = (case call c p of None \<Rightarrow> None | Some p1 \<Rightarrow> run_calls cs p1)"

section \<open>Notions for stating the claims\<close>

text \<open>The runes consumed from the reader between the lexer \<open>l\<close> and a later lexer \<open>l1\<close>.\<close>

definition consumed_between :: "CustomLexer \<Rightarrow> CustomLexer \<Rightarrow> rune list" where
  "consumed_between l l1 =
     take (length (upcoming (r l)) - length (upcoming (r l1))) (upcoming (r l))"

text \<open>
  The reader position of \<open>l1\<close> is that of \<open>l\<close> moved over exactly the runes consumed in
  between, one step of \<open>consume_rune\<close> for each.
\<close>

definition tracks :: "CustomLexer \<Rightarrow> CustomLexer \<Rightarrow> bool" where
  "tracks l l1 =
     (upcoming (r l) = consumed_between l l1 @ upcoming (r l1) \<and>
      pos l1 = consume_runes (consumed_between l l1) (pos l))"

text \<open>
  Every pointer kept in a node of the heap points to a node of the heap, as every
  non-\<^verbatim>\<open>nil\<close> pointer does in Go.
\<close>

definition valid_refs :: "'v Node list \<Rightarrow> bool" where
  "valid_refs h =
     list_all (\<lambda>nd. (case Parent nd of None \<Rightarrow> True | Some a \<Rightarrow> a < length h) \<and>
                    (case Children nd of None \<Rightarrow> True | Some cs \<Rightarrow> list_all (\<lambda>c. c < length h) cs))
       h"

text \<open>The children of a node as a set; a \<^verbatim>\<open>nil\<close> slice has none.\<close>

definition child_set :: "'v Node \<Rightarrow> ref set" where
  "child_set nd = (case Children nd of None \<Rightarrow> {} | Some cs \<Rightarrow> set cs)"

section \<open>Examples\<close>

text \<open>
  \<open>string_reader s\<close> reads the runes of \<open>s\<close> and then ends, as \<^verbatim>\<open>strings.NewReader\<close> in
  the tests does; \<open>failing_reader s\<close> reads the runes of \<open>s\<close> and then fails with an I/O
  error. Nothing is buffered ahead in either.
\<close>

definition string_reader :: "rune list \<Rightarrow> RuneReader" where
  "string_reader s = \<lparr>upcoming = s, ending = io_EOF, nbuf = (\<lambda>k. 0), calls = 0\<rparr>"

definition failing_reader :: "rune list \<Rightarrow> RuneReader" where
  "failing_reader s =
     \<lparr>upcoming = s, ending = ErrorString ''read failed'', nbuf = (\<lambda>k. 0), calls = 0\<rparr>"

text \<open>
  A lexer over the input \<open>a\<close> whose stream then fails: one rune is advanced over, and the
  next peek meets the failure, which the lexer records.
\<close>

definition failed_lexer :: CustomLexer where
  "failed_lexer = snd (peekN 1 (snd (advance 1 False (NewCustomLexer [] (failing_reader [97])))))"

text \<open>A lexer over the input \<open>ab\<close> that has advanced over the first rune.\<close>

definition running_lexer :: CustomLexer where
  "running_lexer = snd (advance 1 False (NewCustomLexer [] (string_reader [97, 98])))"

text \<open>A fresh lexer over the empty input.\<close>

definition empty_lexer :: CustomLexer where
  "empty_lexer = NewCustomLexer [] (string_reader [])"

text \<open>A fresh lexer over the input \<open>a\<close>, newline, \<open>b\<close>.\<close>

definition newline_lexer :: CustomLexer where
  "newline_lexer = NewCustomLexer [] (string_reader [97, 10, 98])"

text \<open>
  A lexer state that advances over one rune, emits nothing and stops with an error.
\<close>

definition lexAdvanceFail :: LexState where
  "lexAdvanceFail = LexStateFn (\<lambda>l.
     let (_, l1) = Advance l in ((None, Some (ErrorString ''unexpected rune'')), l1))"

text \<open>A lexer state that advances over one rune and ends the input: \<^verbatim>\<open>return nil, io.EOF\<close>.\<close>

definition lexAdvanceEOF :: LexState where
  "lexAdvanceEOF = LexStateFn (\<lambda>l.
     let (_, l1) = Advance l in ((None, Some io_EOF), l1))"

text \<open>
  A lexer state that advances over one rune, emits it as a token and stops with an error.
\<close>

definition lexEmitFail :: LexState where
  "lexEmitFail = LexStateFn (\<lambda>l.
     let (_, l1) = Advance l; (_, l2) = Emit (TokenTypeUser 1) l1
     in ((None, Some (ErrorString ''unexpected rune'')), l2))"

text \<open>A context that is never cancelled.\<close>

definition no_cancel :: "nat \<Rightarrow> error option" where
  "no_cancel i = None"

text \<open>
  A lexer state that advances over one rune, emits it as a token and ends the input.
\<close>

definition lexEmitEOF :: LexState where
  "lexEmitEOF = LexStateFn (\<lambda>l.
     let (_, l1) = Advance l; (_, l2) = Emit (TokenTypeUser 1) l1
     in ((None, Some io_EOF), l2))"

text \<open>
  A lexer state that does nothing but hand over to \<open>lexEmitFail\<close>, so that \<open>lexEmitFail\<close> runs
  on the second pass of the driver loop.
\<close>

definition lexHandover :: LexState where
  "lexHandover = LexStateFn (\<lambda>l. ((Some lexEmitFail, None), l))"

text \<open>A context that is already cancelled.\<close>

definition cancelled :: "nat \<Rightarrow> error option" where
  "cancelled i = Some context_Canceled"

text \<open>A fresh lexer over the input \<open>ab\<close>.\<close>

definition ab_lexer :: CustomLexer where
  "ab_lexer = NewCustomLexer [] (string_reader [97, 98])"

text \<open>A lexer with one token in its queue and no error.\<close>

definition queued_lexer :: CustomLexer where
  "queued_lexer = snd (emit (TokenTypeUser 1) running_lexer)"

text \<open>
  A token source for the examples: the \<open>k\<close>-th token starts at offset \<open>k\<close>, line 1, column
  \<open>k + 1\<close>.
\<close>

definition tok :: "nat \<Rightarrow> Token" where
  "tok k = \<lparr> Type = TokenTypeUser 1, Value = [97],
             Start = \<lparr>Filename = [], Offset = int k, Line = 1, Column = 1 + int k\<rparr>,
             End = \<lparr>Filename = [], Offset = int k + 1, Line = 1, Column = 2 + int k\<rparr> \<rparr>"

text \<open>
  A parser that has consumed two tokens: under the root (node 0) the current node
  (node 1, value 10, created after the first token) has one child (node 2, value 20,
  created after the second token).
\<close>

definition example_parser :: "nat Parser" where
  "example_parser =
     (let p1 = snd (nextToken (NewParser 0 tok));
          p2 = snd (the (push 10 p1));
          p3 = snd (nextToken p2)
      in snd (the (addNodeHere 20 p3)))"

text \<open>
  A parser that has peeked at a token and pushed a node, and has consumed no token.
\<close>

definition peeked_parser :: "nat Parser" where
  "peeked_parser = the (run_calls [CallPeek, CallPush 7] (NewParser 0 tok))"

text \<open>A parser that has consumed the token \<open>tok 0\<close>.\<close>

definition once_parser :: "nat Parser" where
  "once_parser = snd (nextToken (NewParser 0 tok))"

text \<open>
  A parser that has consumed \<open>tok 0\<close> and \<open>tok 1\<close>, then peeked at \<open>tok 2\<close> and pushed a
  node.
\<close>

definition consumed_parser :: "nat Parser" where
  "consumed_parser = the (run_calls [CallPeek, CallPush 7] (snd (nextToken once_parser)))"

section \<open>Lemmas on the cursor\<close>

lemmas eval_cursor =
  advance_def advance_loop.simps peekN_def nextRune_def NewCustomLexer_def
  failing_reader_def string_reader_def failed_lexer_def running_lexer_def
  RuneReader_Buffered_def RuneReader_Peek_def RuneReader_Discard_def RuneReader_ReadRune_def
  Let_def setErr_def errors_Is_def ignore_def emit_def newToken_def

lemma failed_lexer_fields:
  "err failed_lexer = Some (ErrorString ''read failed'')"
  "pos failed_lexer = \<lparr>Filename = [], Offset = 1, Line = 1, Column = 2\<rparr>"
  "cursor failed_lexer = \<lparr>Filename = [], Offset = 0, Line = 1, Column = 1\<rparr>"
  "b failed_lexer = [97]"
  "buf failed_lexer = []"
  by (simp_all add: eval_cursor)

lemma running_lexer_fields:
  "err running_lexer = None"
  "pos running_lexer = \<lparr>Filename = [], Offset = 1, Line = 1, Column = 2\<rparr>"
  "cursor running_lexer = \<lparr>Filename = [], Offset = 0, Line = 1, Column = 1\<rparr>"
  "b running_lexer = [97]"
  "buf running_lexer = []"
  "upcoming (r running_lexer) = [98]"
  "ending (r running_lexer) = io_EOF"
  by (simp_all add: eval_cursor)

lemma maxLen_of_all_empty: "\<forall>q \<in> set query. q = [] \<Longrightarrow> maxLen_of query m = m"
  by (induction query arbitrary: m) (auto simp: len_def)

lemma setErr_EOF: "errors_Is e io_EOF \<Longrightarrow> setErr e l = l"
  by (simp add: setErr_def)

lemma peekN_clean:
  "err l = None \<Longrightarrow> unwraps_to (ending (r l)) io_EOF \<Longrightarrow> peekN n l = (p, l1) \<Longrightarrow>
     err l1 = None \<and> ending (r l1) = ending (r l)"
  by (auto simp: peekN_def RuneReader_Peek_def setErr_def errors_Is_def Let_def split: if_splits)

lemma nextRune_clean:
  "err l = None \<Longrightarrow> unwraps_to (ending (r l)) io_EOF \<Longrightarrow> nextRune l = (rn, l1) \<Longrightarrow>
     err l1 = None \<and> ending (r l1) = ending (r l)"
  by (auto simp: nextRune_def RuneReader_ReadRune_def setErr_def errors_Is_def Let_def
           split: if_splits list.splits)

lemma advance_loop_clean:
  "err l = None \<Longrightarrow> unwraps_to (ending (r l)) io_EOF \<Longrightarrow>
   advance_loop numRunes discard advanced l = (n, l1) \<Longrightarrow>
     err l1 = None \<and> ending (r l1) = ending (r l)"
proof (induction numRunes arbitrary: advanced l n l1 rule: less_induct)
  case (less numRunes)
  show ?case
  proof (cases "numRunes > 0")
    case False
    with less.prems show ?thesis by (simp add: advance_loop_zero)
  next
    case True
    define toRead where "toRead = (let t0 = min (RuneReader_Buffered (r l)) numRunes
                   in if t0 = 0 then min numRunes 16 else t0)"
    have tr: "0 < toRead" "toRead \<le> numRunes"
      using True by (auto simp: toRead_def Let_def)
    show ?thesis
    proof (cases "toRead \<le> length (upcoming (r l))")
      case le: True
      let ?l' = "l\<lparr>r := (r l)\<lparr>upcoming := drop toRead (upcoming (r l)), calls := calls (r l) + 2\<rparr>,
              pos := consume_runes (take toRead (upcoming (r l))) (pos l),
              b := (if discard then b l else b l @ take toRead (upcoming (r l)))\<rparr>"
      from advance_loop_more[OF True toRead_def le, of discard advanced] less.prems
      have "advance_loop (numRunes - toRead) discard (advanced + toRead) ?l' = (n, l1)"
        by simp
      from less.IH[OF _ _ _ this] tr less.prems(1,2) show ?thesis by simp
    next
      case gt: False
      from less.prems(3) show ?thesis
        using True gt less.prems(1,2) toRead_def
        by (subst (asm) advance_loop.simps)
           (auto simp: Let_def RuneReader_Peek_def RuneReader_Discard_def setErr_def
                       errors_Is_def split: if_splits)
    qed
  qed
qed

lemma advance_clean:
  "err l = None \<Longrightarrow> unwraps_to (ending (r l)) io_EOF \<Longrightarrow> advance numRunes discard l = (n, l1) \<Longrightarrow>
     err l1 = None \<and> ending (r l1) = ending (r l)"
proof -
  assume e: "err l = None" and u: "unwraps_to (ending (r l)) io_EOF"
    and a: "advance numRunes discard l = (n, l1)"
  obtain m l2 where lp: "advance_loop numRunes discard 0 l = (m, l2)"
    by (cases "advance_loop numRunes discard 0 l")
  from a e lp have "l1 = (if discard then ignore l2 else l2)"
    by (simp add: advance_def)
  then have "err l1 = err l2" "r l1 = r l2" by (simp_all add: ignore_def)
  with advance_loop_clean[OF e u lp] show ?thesis by simp
qed

lemma find_loop_clean:
  "err l = None \<Longrightarrow> unwraps_to (ending (r l)) io_EOF \<Longrightarrow> find_loop maxLen query l = (q, l1) \<Longrightarrow>
     err l1 = None \<and> ending (r l1) = ending (r l)"
proof (induction maxLen query l arbitrary: q l1 rule: find_loop.induct)
  case (1 maxLen query l)
  obtain rns l2 where pk: "peekN maxLen l = (rns, l2)" by (cases "peekN maxLen l")
  from peekN_clean[OF "1.prems"(1,2) pk] have c2: "err l2 = None" "ending (r l2) = ending (r l)"
    by simp_all
  show ?case
  proof (cases "length rns = 0")
    case True
    with "1.prems"(3) pk c2 show ?thesis by (simp add: find_loop.simps[of maxLen query l])
  next
    case ne: False
    show ?thesis
    proof (cases "first_match rns query")
      case (Some q')
      with "1.prems"(3) pk c2 ne show ?thesis by (simp add: find_loop.simps[of maxLen query l])
    next
      case None
      obtain rn l3 where nr: "nextRune l2 = (rn, l3)" by (cases "nextRune l2")
      from nextRune_clean[OF c2(1) _ nr] c2(2) "1.prems"(2)
      have c3: "err l3 = None" "ending (r l3) = ending (r l)" by simp_all
      from "1.prems"(3) pk ne None nr have "find_loop maxLen query l3 = (q, l1)"
        by (simp add: find_loop.simps[of maxLen query l])
      moreover have l3: "snd (nextRune l2) = l3" using nr by simp
      moreover have "unwraps_to (ending (r l3)) io_EOF" using c3(2) "1.prems"(2) by simp
      ultimately show ?thesis
        using "1.IH"[OF refl pk[symmetric] ne None, of q l1] c3 by simp
    qed
  qed
qed

lemma discardTo_loop_clean:
  "err l = None \<Longrightarrow> unwraps_to (ending (r l)) io_EOF \<Longrightarrow>
   discardTo_loop maxLen query l = (q, l1) \<Longrightarrow>
     err l1 = None \<and> ending (r l1) = ending (r l)"
proof (induction maxLen query l arbitrary: q l1 rule: discardTo_loop.induct)
  case (1 maxLen query l)
  define bufS where "bufS = max (RuneReader_Buffered (r l)) maxLen"
  obtain rns l2 where pk: "peekN bufS l = (rns, l2)" by (cases "peekN bufS l")
  from peekN_clean[OF "1.prems"(1,2) pk] have c2: "err l2 = None" "ending (r l2) = ending (r l)"
    by simp_all
  with "1.prems"(2) have u2: "unwraps_to (ending (r l2)) io_EOF" by simp
  show ?case
  proof (cases "search_windows (nat (int (length rns) - int maxLen + 1)) 0 maxLen rns query")
    case (Some iq)
    obtain i q' where iq: "iq = (i, q')" by (cases iq)
    obtain n l3 where ad: "advance i True l2 = (n, l3)" by (cases "advance i True l2")
    from advance_clean[OF c2(1) u2 ad] c2(2)
    have c3: "err l3 = None" "ending (r l3) = ending (r l)" by simp_all
    from "1.prems"(3) pk Some iq ad have "l1 = l3"
      by (simp add: discardTo_loop.simps[of maxLen query l] bufS_def Let_def split: if_splits)
    with c3 show ?thesis by simp
  next
    case None
    define toDiscard where
      "toDiscard = (if int (length rns) - int maxLen + 1 \<le> 0 then 1
                    else nat (int (length rns) - int maxLen + 1))"
    obtain n l3 where ad: "advance toDiscard True l2 = (n, l3)"
      by (cases "advance toDiscard True l2")
    from advance_clean[OF c2(1) u2 ad] c2(2)
    have c3: "err l3 = None" "ending (r l3) = ending (r l)" by simp_all
    with "1.prems"(2) have u3: "unwraps_to (ending (r l3)) io_EOF" by simp
    show ?thesis
    proof (cases "n < toDiscard")
      case True
      with "1.prems"(3) pk None ad have "l1 = l3"
        by (simp add: discardTo_loop.simps[of maxLen query l] bufS_def toDiscard_def Let_def)
      with c3 show ?thesis by simp
    next
      case False
      with "1.prems"(3) pk None ad have rec: "discardTo_loop maxLen query l3 = (q, l1)"
        by (simp add: discardTo_loop.simps[of maxLen query l] bufS_def toDiscard_def Let_def)
      from "1.IH"[OF bufS_def refl pk[symmetric] None refl toDiscard_def refl ad[symmetric] False c3(1) u3 rec]
        c3(2)
      show ?thesis by simp
    qed
  qed
qed

lemma tracksI:
  "k \<le> length (upcoming (r l)) \<Longrightarrow> upcoming (r l1) = drop k (upcoming (r l)) \<Longrightarrow>
   pos l1 = consume_runes (take k (upcoming (r l))) (pos l) \<Longrightarrow>
   tracks l l1 \<and> consumed_between l l1 = take k (upcoming (r l))"
  by (simp add: tracks_def consumed_between_def)

lemma tracks_refl: "tracks l l"
  by (simp add: tracks_def consumed_between_def)

lemma tracks_trans:
  assumes "tracks l l1" and "tracks l1 l2"
  shows "tracks l l2"
proof -
  let ?a = "consumed_between l l1" and ?b = "consumed_between l1 l2"
  from assms have u: "upcoming (r l) = ?a @ ?b @ upcoming (r l2)"
    by (simp add: tracks_def)
  then have "length (upcoming (r l)) - length (upcoming (r l2)) = length (?a @ ?b)"
    by (metis add_diff_cancel_right' append.assoc length_append)
  with u have c: "consumed_between l l2 = ?a @ ?b"
    by (metis append.assoc append_eq_conv_conj consumed_between_def)
  from assms have "pos l2 = consume_runes (?a @ ?b) (pos l)"
    by (simp add: tracks_def consume_runes_append)
  with u c show ?thesis by (simp add: tracks_def)
qed

lemma tracks_peekN: "tracks l (snd (peekN n l))"
  by (auto simp: peekN_def RuneReader_Peek_def setErr_def Let_def tracks_def consumed_between_def)

lemma tracks_nextRune: "tracks l (snd (nextRune l))"
  by (auto simp: nextRune_def RuneReader_ReadRune_def setErr_def Let_def tracks_def
        consumed_between_def consume_rune_def split: list.splits)

lemma tracks_advance:
  "tracks l (snd (advance n discard l)) \<and>
   consumed_between l (snd (advance n discard l)) = take (fst (advance n discard l)) (upcoming (r l))"
proof -
  obtain k l1 where a: "advance n discard l = (k, l1)" by (cases "advance n discard l")
  from advance_consumes[OF a] tracksI[of k l l1] a show ?thesis by simp
qed

lemma tracks_find_loop: "tracks l (snd (find_loop maxLen query l))"
proof (induction maxLen query l rule: find_loop.induct)
  case (1 maxLen query l)
  obtain rns l1 where pk: "peekN maxLen l = (rns, l1)" by (cases "peekN maxLen l")
  from tracks_peekN[of l maxLen] pk have t1: "tracks l l1" by simp
  show ?case
  proof (cases "length rns = 0 \<or> first_match rns query \<noteq> None")
    case True
    with pk t1 show ?thesis
      by (auto simp: find_loop.simps[of maxLen query l])
  next
    case False
    then have ne: "length rns \<noteq> 0" and nm: "first_match rns query = None" by simp_all
    from "1.IH"[OF refl pk[symmetric] ne nm]
    have "tracks (snd (nextRune l1)) (snd (find_loop maxLen query (snd (nextRune l1))))" .
    with tracks_nextRune[of l1] t1
    have "tracks l (snd (find_loop maxLen query (snd (nextRune l1))))"
      by (blast intro: tracks_trans)
    with pk ne nm show ?thesis by (simp add: find_loop.simps[of maxLen query l])
  qed
qed

lemma tracks_discardTo_loop: "tracks l (snd (discardTo_loop maxLen query l))"
proof (induction maxLen query l rule: discardTo_loop.induct)
  case (1 maxLen query l)
  define bufS where "bufS = max (RuneReader_Buffered (r l)) maxLen"
  obtain rns l1 where pk: "peekN bufS l = (rns, l1)" by (cases "peekN bufS l")
  from tracks_peekN[of l bufS] pk have t1: "tracks l l1" by simp
  show ?case
  proof (cases "search_windows (nat (int (length rns) - int maxLen + 1)) 0 maxLen rns query")
    case (Some iq)
    obtain i q' where iq: "iq = (i, q')" by (cases iq)
    obtain n l2 where ad: "advance i True l1 = (n, l2)" by (cases "advance i True l1")
    from tracks_advance[of l1 i True] ad t1 have "tracks l l2"
      by (auto intro: tracks_trans)
    moreover from pk Some iq ad have "snd (discardTo_loop maxLen query l) = l2"
      by (simp add: discardTo_loop.simps[of maxLen query l] bufS_def Let_def)
    ultimately show ?thesis by simp
  next
    case None
    define toDiscard where
      "toDiscard = (if int (length rns) - int maxLen + 1 \<le> 0 then 1
                    else nat (int (length rns) - int maxLen + 1))"
    obtain n l2 where ad: "advance toDiscard True l1 = (n, l2)"
      by (cases "advance toDiscard True l1")
    from tracks_advance[of l1 toDiscard True] ad t1 have t2: "tracks l l2"
      by (auto intro: tracks_trans)
    show ?thesis
    proof (cases "n < toDiscard")
      case True
      with pk None ad have "snd (discardTo_loop maxLen query l) = l2"
        by (simp add: discardTo_loop.simps[of maxLen query l] bufS_def toDiscard_def Let_def)
      with t2 show ?thesis by simp
    next
      case False
      from "1.IH"[OF bufS_def refl pk[symmetric] None refl toDiscard_def refl ad[symmetric] False]
      have "tracks l2 (snd (discardTo_loop maxLen query l2))" .
      with t2 have "tracks l (snd (discardTo_loop maxLen query l2))" by (rule tracks_trans)
      moreover from False pk None ad
      have "discardTo_loop maxLen query l = discardTo_loop maxLen query l2"
        by (simp add: discardTo_loop.simps[of maxLen query l] bufS_def toDiscard_def Let_def)
      ultimately show ?thesis by simp
    qed
  qed
qed

lemma newline_lexer_fields:
  "err newline_lexer = None"
  "upcoming (r newline_lexer) = [97, 10, 98]"
  "pos newline_lexer = \<lparr>Filename = [], Offset = 0, Line = 1, Column = 1\<rparr>"
  "upcoming (r empty_lexer) = []"
  by (simp_all add: newline_lexer_def empty_lexer_def NewCustomLexer_def string_reader_def)

lemma sticky_peekN: "err l = Some e \<Longrightarrow> peekN n l = ([], l)"
  by (simp add: peekN_def)

lemma sticky_advance: "err l = Some e \<Longrightarrow> advance n discard l = (0, l)"
  by (simp add: advance_def)

lemma sticky_find: "err l = Some e \<Longrightarrow> find' query l = ([], l)"
  by (simp add: find'_def Let_def find_loop.simps[of _ query l] sticky_peekN)

lemma sticky_discardTo: "err l = Some e \<Longrightarrow> discardTo query l = ([], l)"
proof -
  assume e: "err l = Some e"
  have "0 < maxLen \<Longrightarrow> discardTo_loop maxLen query l = ([], l)" for maxLen
    by (subst discardTo_loop.simps) (simp add: sticky_peekN[OF e] sticky_advance[OF e])
  then show ?thesis by (simp add: discardTo_def Let_def)
qed

section \<open>Lemmas on the lexer driver\<close>

lemmas eval_driver =
  NextToken_def NextToken_return_def lexAdvanceFail_def lexAdvanceEOF_def lexEmitFail_def
  lexEmitEOF_def no_cancel_def ab_lexer_def Advance_def Emit_def eval_cursor

lemma queued_lexer_fields:
  "err queued_lexer = None"
  "buf queued_lexer = [newToken (TokenTypeUser 1) running_lexer]"
  by (simp_all add: queued_lexer_def emit_def ignore_def Let_def running_lexer_fields)

lemma Run_lexEmitFail:
  "fst (Run lexEmitFail ab_lexer) = (None, Some (ErrorString ''unexpected rune''))"
  "err (snd (Run lexEmitFail ab_lexer)) = None"
  "map Value (buf (snd (Run lexEmitFail ab_lexer))) = [[97]]"
  by (simp_all add: eval_driver)

lemma Run_lexEmitEOF:
  "fst (Run lexEmitEOF ab_lexer) = (None, Some io_EOF)"
  "err (snd (Run lexEmitEOF ab_lexer)) = None"
  "buf (snd (Run lexEmitEOF ab_lexer)) = [newToken (TokenTypeUser 1) running_lexer]"
  by (simp_all add: eval_driver)

lemma ab_lexer_fields:
  "err ab_lexer = None" "buf ab_lexer = []" "err empty_lexer = None" "buf empty_lexer = []"
  by (simp_all add: ab_lexer_def empty_lexer_def NewCustomLexer_def)

lemma Run_lexHandover: "Run lexHandover l = ((Some lexEmitFail, None), l)"
  by (simp add: lexHandover_def)

lemma NextToken_loop_queue:
  "buf l \<noteq> [] \<Longrightarrow> NextToken_loop fuel ctx i state l = Some (NextToken_return state l)"
  by (cases fuel) simp_all

lemma NextToken_loop_nil_state:
  "NextToken_loop fuel ctx i None l = Some (NextToken_return None l)"
  by (cases fuel) simp_all

section \<open>Lemmas on the parser\<close>

lemma valid_refs_nth:
  "valid_refs h \<Longrightarrow> x < length h \<Longrightarrow>
     (case Parent (h ! x) of None \<Rightarrow> True | Some a \<Rightarrow> a < length h) \<and>
     (case Children (h ! x) of None \<Rightarrow> True | Some cs \<Rightarrow> list_all (\<lambda>c. c < length h) cs)"
  by (simp add: valid_refs_def list_all_length)

lemma valid_refs_Parent:
  "valid_refs h \<Longrightarrow> x < length h \<Longrightarrow> Parent (h ! x) = Some a \<Longrightarrow> a < length h"
  using valid_refs_nth[of h x] by simp

lemma valid_refs_Children:
  "valid_refs h \<Longrightarrow> x < length h \<Longrightarrow> Children (h ! x) = Some cs \<Longrightarrow> c \<in> set cs \<Longrightarrow> c < length h"
  using valid_refs_nth[of h x] by (simp add: list_all_iff)

lemma rewire_result:
  "\<forall>c \<in> set cs. c < length h \<Longrightarrow>
   \<exists>h'. rewire n cs h = Some h' \<and> length h' = length h \<and>
        (\<forall>x < length h. h' ! x = (if x \<in> set cs then (h ! x)\<lparr>Parent := Some n\<rparr> else h ! x))"
proof (induction cs arbitrary: h)
  case Nil
  show ?case by simp
next
  case (Cons c cs)
  let ?h1 = "h[c := (h ! c)\<lparr>Parent := Some n\<rparr>]"
  from Cons.prems have c: "c < length h" and cs: "\<forall>c \<in> set cs. c < length ?h1" by simp_all
  from Cons.IH[OF cs] obtain h' where h': "rewire n cs ?h1 = Some h'" "length h' = length h"
    "\<forall>x < length h. h' ! x = (if x \<in> set cs then (?h1 ! x)\<lparr>Parent := Some n\<rparr> else ?h1 ! x)"
    by auto
  have "\<forall>x < length h. h' ! x = (if x \<in> set (c # cs) then (h ! x)\<lparr>Parent := Some n\<rparr> else h ! x)"
  proof (intro allI impI)
    fix x assume x: "x < length h"
    show "h' ! x = (if x \<in> set (c # cs) then (h ! x)\<lparr>Parent := Some n\<rparr> else h ! x)"
      using h'(3) x c by (cases "x = c") auto
  qed
  with h'(1,2) c show ?case by (simp add: deref_def)
qed

lemma replace_heap:
  assumes nd: "node p = Some cur" and cur: "cur < length (heap p)"
    and vr: "valid_refs (heap p)"
    and np: "Parent (heap p ! cur) \<noteq> Some cur"
  shows "\<exists>h3. replace v p =
            Some (NodeValue (heap p ! cur),
                  p\<lparr>heap := h3,
                    root := (if root p = Some cur then Some (length (heap p)) else root p),
                    node := Some (length (heap p))\<rparr>) \<and>
          length h3 = length (heap p) + 1 \<and>
          h3 ! length (heap p) =
            \<lparr> Parent = Parent (heap p ! cur), Children = Children (heap p ! cur), NodeValue = v,
              NodeStart = (case token p of None \<Rightarrow> zero_Position | Some t \<Rightarrow> Start t) \<rparr> \<and>
          (\<forall>x < length (heap p).
             h3 ! x = (heap p ! x)
               \<lparr>Parent := (if x \<in> child_set (heap p ! cur) then Some (length (heap p))
                            else Parent (heap p ! x)),
                Children := (if Parent (heap p ! cur) = Some x
                             then map_option (replace_first cur (length (heap p))) (Children (heap p ! x))
                             else Children (heap p ! x))\<rparr>)"
proof -
  define h0 where "h0 = heap p"
  define n where "n = length h0"
  define st where "st = (case token p of None \<Rightarrow> zero_Position | Some t \<Rightarrow> Start t)"
  define new0 :: "'a Node" where
    "new0 = \<lparr> Parent = None, Children = None, NodeValue = v, NodeStart = st \<rparr>"
  define hA where "hA = h0 @ [new0]"
  define curN where "curN = h0 ! cur"
  define h1 where "h1 = hA[n := (hA ! n)\<lparr>Parent := Parent curN\<rparr>]"
  define h2 where "h2 = (case Parent curN of None \<Rightarrow> h1
     | Some par \<Rightarrow> h1[par := (h1 ! par)\<lparr>Children := map_option (replace_first cur n) (Children (h1 ! par))\<rparr>])"
  define h2' where "h2' = (case Children curN of None \<Rightarrow> h2
     | Some cs \<Rightarrow> h2[n := (h2 ! n)\<lparr>Children := Some cs\<rparr>])"
  have cur_n: "cur < n" using cur by (simp add: n_def h0_def)
  have nn: "newNode v p = (n, p\<lparr>heap := hA\<rparr>)"
    by (simp add: newNode_def n_def h0_def hA_def new0_def st_def)
  have d_cur: "deref hA cur = Some curN"
    using cur_n by (simp add: deref_def hA_def n_def curN_def nth_append)
  have len1: "length h1 = n + 1" by (simp add: h1_def hA_def n_def)
  have h1n: "h1 ! n = new0\<lparr>Parent := Parent curN\<rparr>"
    by (simp add: h1_def hA_def n_def)
  have h1x: "x < n \<Longrightarrow> h1 ! x = h0 ! x" for x
    by (simp add: h1_def hA_def n_def nth_append)
  have par_lt: "Parent curN = Some par \<Longrightarrow> par < n" for par
    using valid_refs_Parent[OF vr cur, of par] by (simp add: curN_def n_def h0_def)
  have h2opt: "(case Parent curN of None \<Rightarrow> Some h1
     | Some par \<Rightarrow> (case deref h1 par of None \<Rightarrow> None
         | Some parN \<Rightarrow> Some (h1[par := parN\<lparr>Children := map_option (replace_first cur n) (Children parN)\<rparr>])))
     = Some h2"
    using par_lt len1 by (auto simp: h2_def deref_def split: option.splits)
  have len2: "length h2 = n + 1"
    using len1 by (simp add: h2_def split: option.splits)
  have h2n: "h2 ! n = new0\<lparr>Parent := Parent curN\<rparr>"
    using par_lt h1n len1 by (auto simp: h2_def split: option.splits)
  have h2x: "h2 ! x = (h0 ! x)\<lparr>Children :=
       (if Parent curN = Some x then map_option (replace_first cur n) (Children (h0 ! x))
        else Children (h0 ! x))\<rparr>" if "x < n" for x
    using that h1x len1 by (auto simp: h2_def nth_list_update split: option.splits)
  have h2cur: "Children (h2 ! cur) = Children curN"
    using h2x[OF cur_n] np by (simp add: curN_def h0_def)
  have cs_lt: "Children curN = Some cs \<Longrightarrow> c \<in> set cs \<Longrightarrow> c < n" for cs c
    using valid_refs_Children[OF vr cur, of cs c] by (simp add: curN_def n_def h0_def)
  have len2': "length h2' = n + 1"
    using len2 by (simp add: h2'_def split: option.splits)
  have h2'n: "h2' ! n = \<lparr> Parent = Parent curN, Children = Children curN, NodeValue = v, NodeStart = st \<rparr>"
    using h2n len2 by (auto simp: h2'_def new0_def split: option.splits)
  have h2'x: "x < n \<Longrightarrow> h2' ! x = h2 ! x" for x
    by (simp add: h2'_def split: option.splits)
  have "\<exists>h3. (case Children (h2 ! cur) of None \<Rightarrow> Some h2
                | Some cs \<Rightarrow> rewire n cs (h2[n := (h2 ! n)\<lparr>Children := Some cs\<rparr>])) = Some h3 \<and>
             length h3 = n + 1 \<and>
             (\<forall>x < n + 1. h3 ! x = (if x \<in> child_set curN then (h2' ! x)\<lparr>Parent := Some n\<rparr> else h2' ! x))"
  proof (cases "Children curN")
    case None
    then show ?thesis using len2 h2cur by (simp add: h2'_def child_set_def)
  next
    case (Some cs)
    have "\<forall>c \<in> set cs. c < length h2'" using cs_lt[OF Some] len2' by (simp add: less_Suc_eq)
    from rewire_result[OF this, of n] Some h2cur len2' show ?thesis
      by (simp add: h2'_def child_set_def)
  qed
  then obtain h3 where h3: "(case Children (h2 ! cur) of None \<Rightarrow> Some h2
                | Some cs \<Rightarrow> rewire n cs (h2[n := (h2 ! n)\<lparr>Children := Some cs\<rparr>])) = Some h3"
    and len3: "length h3 = n + 1"
    and ch3: "\<forall>x < n + 1. h3 ! x = (if x \<in> child_set curN then (h2' ! x)\<lparr>Parent := Some n\<rparr> else h2' ! x)"
    by blast
  have n_notin: "n \<notin> child_set curN"
    using cs_lt by (auto simp: child_set_def split: option.splits)
  have h3n: "h3 ! n = \<lparr> Parent = Parent curN, Children = Children curN, NodeValue = v, NodeStart = st \<rparr>"
    using ch3 n_notin h2'n by simp
  have h3x: "h3 ! x = (h0 ! x)
               \<lparr>Parent := (if x \<in> child_set curN then Some n else Parent (h0 ! x)),
                Children := (if Parent curN = Some x
                             then map_option (replace_first cur n) (Children (h0 ! x))
                             else Children (h0 ! x))\<rparr>" if "x < n" for x
    using ch3 that h2'x[OF that] h2x[OF that] by auto
  have val: "NodeValue (h3 ! cur) = NodeValue curN"
    using h3x[OF cur_n] by (simp add: curN_def)
  have "replace v p =
            Some (NodeValue curN,
                  p\<lparr>heap := h3, root := (if root p = Some cur then Some n else root p),
                    node := Some n\<rparr>)"
    using nn nd d_cur h2opt h3 val
    by (simp add: replace_def Let_def h1_def[symmetric] eq_commute[of "Some cur" "root p"])
  with len3 h3n h3x show ?thesis
    unfolding n_def h0_def curN_def st_def by auto
qed

lemma newNode_fields:
  "fst (newNode v p) = length (heap p)"
  "token (snd (newNode v p)) = token p"
  "node (snd (newNode v p)) = node p"
  "root (snd (newNode v p)) = root p"
  "length (heap (snd (newNode v p))) = length (heap p) + 1"
  "NodeStart (heap (snd (newNode v p)) ! length (heap p)) =
     (case token p of None \<Rightarrow> zero_Position | Some t \<Rightarrow> Start t)"
  by (simp_all add: newNode_def Let_def)

lemma peek_token: "token (snd (peek p)) = token p"
  by (simp add: peek_def Let_def split: option.splits)

lemma nextToken_token: "nextToken p = (t, p1) \<Longrightarrow> token p1 = Some t"
  by (auto simp: nextToken_def Let_def split: prod.splits)

lemma addNodeHere_start:
  assumes "addNodeHere v p = Some (n, p')"
  shows "token p' = token p \<and>
         NodeStart (heap p' ! n) = (case token p of None \<Rightarrow> zero_Position | Some t \<Rightarrow> Start t)"
proof -
  obtain cur where nd: "node p = Some cur"
    using assms by (cases "node p") (simp_all add: addNodeHere_def newNode_def Let_def)
  have d: "deref (heap p @ [\<lparr>Parent = None, Children = None, NodeValue = v,
              NodeStart = (case token p of None \<Rightarrow> zero_Position | Some t \<Rightarrow> Start t)\<rparr>]) cur \<noteq> None"
    using assms nd by (auto simp: addNodeHere_def newNode_def Let_def split: option.splits)
  then have c: "cur < length (heap p) + 1" by (simp add: deref_def split: if_splits)
  from assms nd c show ?thesis
    by (auto simp: addNodeHere_def newNode_def Let_def deref_def nth_list_update nth_append
             split: option.splits if_splits)
qed

lemma push_start:
  assumes "push v p = Some (n, p')"
  shows "token p' = token p \<and>
         NodeStart (heap p' ! n) = (case token p of None \<Rightarrow> zero_Position | Some t \<Rightarrow> Start t)"
proof -
  from assms obtain p1 where a: "addNodeHere v p = Some (n, p1)" and p': "p' = p1\<lparr>node := Some n\<rparr>"
    by (auto simp: push_def split: option.splits)
  from addNodeHere_start[OF a] p' show ?thesis by simp
qed

lemma climb_token: "climb p = Some (n, p') \<Longrightarrow> token p' = token p"
  by (auto simp: climb_def split: option.splits if_splits)

lemma replace_token: "replace v p = Some (old, p') \<Longrightarrow> token p' = token p"
  by (auto simp: replace_def newNode_def Let_def split: option.splits)

lemma call_token: "c \<noteq> CallNext \<Longrightarrow> call c p = Some p' \<Longrightarrow> token p' = token p"
proof (cases c)
  case CallPeek
  assume "call c p = Some p'"
  with CallPeek show ?thesis by (auto simp: peek_token)
next
  case CallNext
  assume "c \<noteq> CallNext"
  with CallNext show ?thesis by simp
next
  case (CallPush v)
  assume "call c p = Some p'"
  with CallPush obtain n where "push v p = Some (n, p')" by auto
  from push_start[OF this] show ?thesis by simp
next
  case (CallNode v)
  assume "call c p = Some p'"
  with CallNode obtain n where "addNodeHere v p = Some (n, p')" by auto
  from addNodeHere_start[OF this] show ?thesis by simp
next
  case (CallNewNode v)
  assume "call c p = Some p'"
  with CallNewNode show ?thesis by (auto simp: newNode_fields)
next
  case CallClimb
  assume "call c p = Some p'"
  with CallClimb obtain n where "climb p = Some (n, p')" by auto
  from climb_token[OF this] show ?thesis .
next
  case (CallReplace v)
  assume "call c p = Some p'"
  with CallReplace obtain old where "replace v p = Some (old, p')" by auto
  from replace_token[OF this] show ?thesis .
next
  case (CallSetRoot rt)
  assume "call c p = Some p'"
  with CallSetRoot show ?thesis by (auto simp: setRoot_def)
qed

lemma run_calls_token:
  "CallNext \<notin> set cs \<Longrightarrow> run_calls cs p = Some p' \<Longrightarrow> token p' = token p"
proof (induction cs arbitrary: p)
  case Nil
  then show ?case by simp
next
  case (Cons c cs)
  from Cons.prems obtain p1 where c: "call c p = Some p1" and r: "run_calls cs p1 = Some p'"
    by (auto split: option.splits)
  from Cons.prems have "c \<noteq> CallNext" "CallNext \<notin> set cs" by auto
  with call_token[OF _ c] Cons.IH[OF _ r] show ?case by simp
qed

lemmas eval_parser =
  NewParser_def nextToken_def peek_def push_def addNodeHere_def newNode_def climb_def
  replace_def setRoot_def deref_def Let_def tok_def zero_Position_def

lemma example_parser_fields:
  "node example_parser = Some 1"
  "root example_parser = Some 0"
  "token example_parser = Some (tok 1)"
  "heap example_parser =
     [\<lparr>Parent = None, Children = Some [1], NodeValue = 0,
        NodeStart = \<lparr>Filename = [], Offset = 0, Line = 1, Column = 1\<rparr>\<rparr>,
      \<lparr>Parent = Some 0, Children = Some [2], NodeValue = 10,
        NodeStart = \<lparr>Filename = [], Offset = 0, Line = 1, Column = 1\<rparr>\<rparr>,
      \<lparr>Parent = Some 1, Children = None, NodeValue = 20,
        NodeStart = \<lparr>Filename = [], Offset = 1, Line = 1, Column = 2\<rparr>\<rparr>]"
  by (simp_all add: example_parser_def eval_parser)

lemma peeked_parser_fields:
  "run_calls [CallPeek, CallPush 7] (NewParser 0 tok) = Some peeked_parser"
  "node peeked_parser = Some 1"
  "length (heap peeked_parser) = 2"
  "token peeked_parser = None"
  "next_token peeked_parser = Some (tok 0)"
  by (simp_all add: peeked_parser_def eval_parser)

lemma consumed_parser_fields:
  "nextToken once_parser = (tok 1, snd (nextToken once_parser))"
  "run_calls [CallPeek, CallPush 7] (snd (nextToken once_parser)) = Some consumed_parser"
  "node consumed_parser = Some 1"
  "length (heap consumed_parser) = 2"
  "next_token consumed_parser = Some (tok 2)"
  by (simp_all add: consumed_parser_def once_parser_def eval_parser)

section \<open>Claims\<close>

text \<open>
  Claim C1, as stated: when both the lexer and the parser finish with an error, the error
  returned is the parser's, and the lexer's error is returned only when the parser
  reports none. It fails: with a lexer error that is neither a cancellation nor end of
  input, the lexer's error is returned although the parser reports one too.
\<close>

theorem C1_counterexample:
  "LexParse_err (Some (ErrorString ''unexpected rune'')) (Some (ErrorString ''unexpected token''))
     = Some (ErrorString ''unexpected rune'') \<and>
   LexParse_err (Some (ErrorString ''unexpected rune'')) (Some (ErrorString ''unexpected token''))
     \<noteq> Some (ErrorString ''unexpected token'')"
  by (simp add: LexParse_err_def errors_Is_def)

text \<open>
  Claim C1, amended: the lexer's error takes precedence. It is returned whenever it is
  set and is neither a cancellation (\<^verbatim>\<open>context.Canceled\<close>) nor end of input, whether or not
  the parser reports an error; the parser's error (or no error, when it reports none) is
  returned when the lexer has no error or its error is a cancellation or end of input. So
  the lexer's error is never returned when it is end of input or a cancellation.
\<close>

theorem C1_error_precedence:
  "(lexErr \<noteq> None \<and> \<not> errors_Is lexErr context_Canceled \<and> \<not> errors_Is lexErr io_EOF \<longrightarrow>
      LexParse_err lexErr parseErr = lexErr) \<and>
   (lexErr' = None \<or> errors_Is lexErr' context_Canceled \<or> errors_Is lexErr' io_EOF \<longrightarrow>
      LexParse_err lexErr' parseErr = parseErr)"
  by (simp add: LexParse_err_def)

theorem C1_error_precedence_witness:
  "LexParse_err (Some (Wrapf ''peeking input'' (ErrorString ''read failed'')))
       (Some (ErrorString ''unexpected token''))
     = Some (Wrapf ''peeking input'' (ErrorString ''read failed'')) \<and>
   errors_Is (Some context_Canceled) context_Canceled \<and>
   LexParse_err (Some context_Canceled) (Some (ErrorString ''unexpected token''))
     = Some (ErrorString ''unexpected token'')"
  using C1_error_precedence[of "Some (Wrapf ''peeking input'' (ErrorString ''read failed''))"
      "Some (ErrorString ''unexpected token'')" "Some context_Canceled"]
  by (simp add: errors_Is_def)

text \<open>
  Claim C2 says that every token of type \<open>EOF\<close> returned by \<open>NextToken\<close> has an empty value
  and equal start and end, also after a state that advanced the reader and then stopped
  with an error. The code at that input: over the input \<open>ab\<close>, the state \<open>lexAdvanceFail\<close>
  advances over \<open>a\<close> and returns an error; \<open>NextToken\<close> then builds the \<open>EOF\<close> token with
  \<open>newToken\<close>, which takes the in-progress text \<open>a\<close> as its value, the token cursor as its
  start and the reader position as its end. The same token comes back when the state
  ends the input instead (\<open>lexAdvanceEOF\<close> returns \<^verbatim>\<open>io.EOF\<close>).
\<close>

theorem C2_eof_token_after_error:
  "map_option fst (NextToken (Suc 0) no_cancel (Some lexAdvanceFail) ab_lexer) =
     Some \<lparr> Type = TokenTypeEOF, Value = [97],
            Start = \<lparr>Filename = [], Offset = 0, Line = 1, Column = 1\<rparr>,
            End = \<lparr>Filename = [], Offset = 1, Line = 1, Column = 2\<rparr> \<rparr> \<and>
   map_option fst (NextToken (Suc 0) no_cancel (Some lexAdvanceEOF) ab_lexer) =
     Some \<lparr> Type = TokenTypeEOF, Value = [97],
            Start = \<lparr>Filename = [], Offset = 0, Line = 1, Column = 1\<rparr>,
            End = \<lparr>Filename = [], Offset = 1, Line = 1, Column = 2\<rparr> \<rparr>"
  by (simp add: eval_driver)

text \<open>
  Claim C3, as stated: a node created by \<open>push\<close>, \<open>addNodeHere\<close> or \<open>newNode\<close> before any token
  has been consumed starts at line 1, column 1, offset 0. It fails: \<open>newNode\<close> leaves the
  start at the zero value of \<^verbatim>\<open>Position\<close>, line 0, column 0, offset 0.
\<close>

theorem C3_counterexample:
  "NodeStart (heap (snd (newNode 5 (NewParser (0::nat) tok))) ! fst (newNode 5 (NewParser (0::nat) tok)))
     = \<lparr>Filename = [], Offset = 0, Line = 0, Column = 0\<rparr> \<and>
   map_option (\<lambda>(n, p'). NodeStart (heap p' ! n)) (push 5 (NewParser (0::nat) tok))
     = Some \<lparr>Filename = [], Offset = 0, Line = 0, Column = 0\<rparr> \<and>
   map_option (\<lambda>(n, p'). NodeStart (heap p' ! n)) (addNodeHere 5 (NewParser (0::nat) tok))
     = Some \<lparr>Filename = [], Offset = 0, Line = 0, Column = 0\<rparr> \<and>
   \<lparr>Filename = [], Offset = 0, Line = 0, Column = 0\<rparr>
     \<noteq> \<lparr>Filename = [], Offset = 0, Line = 1, Column = 1\<rparr>"
  by (simp add: eval_parser)

text \<open>
  Claim C3, amended: every node created by \<open>push\<close>, \<open>addNodeHere\<close> or \<open>newNode\<close> before any
  token has been consumed (after any calls on the parser other than \<open>Next\<close>) has the zero
  position as its start (line 0, column 0, offset 0, no file name); after a token has
  been consumed by \<open>nextToken\<close>, and whatever calls other than \<open>Next\<close> follow, a peek among
  them, the created node's start is the start of that last consumed token, not that of
  the peeked token.
\<close>

theorem C3_node_start:
  "(CallNext \<notin> set cs \<and> run_calls cs (NewParser z toks) = Some p \<longrightarrow>
      NodeStart (heap (snd (newNode v p)) ! fst (newNode v p)) = zero_Position \<and>
      (\<forall>n p'. addNodeHere v p = Some (n, p') \<longrightarrow> NodeStart (heap p' ! n) = zero_Position) \<and>
      (\<forall>n p'. push v p = Some (n, p') \<longrightarrow> NodeStart (heap p' ! n) = zero_Position)) \<and>
   (CallNext \<notin> set cs' \<and> nextToken q = (t, q1) \<and> run_calls cs' q1 = Some q2 \<longrightarrow>
      NodeStart (heap (snd (newNode v q2)) ! fst (newNode v q2)) = Start t \<and>
      (\<forall>n p'. addNodeHere v q2 = Some (n, p') \<longrightarrow> NodeStart (heap p' ! n) = Start t) \<and>
      (\<forall>n p'. push v q2 = Some (n, p') \<longrightarrow> NodeStart (heap p' ! n) = Start t))"
proof (intro conjI impI allI)
  assume a: "CallNext \<notin> set cs \<and> run_calls cs (NewParser z toks) = Some p"
  then have "token p = token (NewParser z toks)"
    using run_calls_token[of cs "NewParser z toks" p] by simp
  then have t: "token p = None" by (simp add: NewParser_def)
  show "NodeStart (heap (snd (newNode v p)) ! fst (newNode v p)) = zero_Position"
    using t by (simp add: newNode_fields)
  show "NodeStart (heap p' ! n) = zero_Position" if "addNodeHere v p = Some (n, p')" for n p'
    using addNodeHere_start[OF that] t by simp
  show "NodeStart (heap p' ! n) = zero_Position" if "push v p = Some (n, p')" for n p'
    using push_start[OF that] t by simp
next
  assume a: "CallNext \<notin> set cs' \<and> nextToken q = (t, q1) \<and> run_calls cs' q1 = Some q2"
  then have "token q2 = token q1"
    using run_calls_token[of cs' q1 q2] by simp
  with a have t: "token q2 = Some t" using nextToken_token[of q t q1] by simp
  show "NodeStart (heap (snd (newNode v q2)) ! fst (newNode v q2)) = Start t"
    using t by (simp add: newNode_fields)
  show "NodeStart (heap p' ! n) = Start t" if "addNodeHere v q2 = Some (n, p')" for n p'
    using addNodeHere_start[OF that] t by simp
  show "NodeStart (heap p' ! n) = Start t" if "push v q2 = Some (n, p')" for n p'
    using push_start[OF that] t by simp
qed

theorem C3_node_start_witness:
  "run_calls [CallPeek, CallPush 7] (NewParser 0 tok) = Some peeked_parser \<and>
   next_token peeked_parser = Some (tok 0) \<and>
   NodeStart (heap (snd (newNode 5 peeked_parser)) ! fst (newNode 5 peeked_parser)) = zero_Position \<and>
   (\<exists>n p'. addNodeHere 5 peeked_parser = Some (n, p') \<and> NodeStart (heap p' ! n) = zero_Position) \<and>
   (\<exists>n p'. push 5 peeked_parser = Some (n, p') \<and> NodeStart (heap p' ! n) = zero_Position) \<and>
   nextToken once_parser = (tok 1, snd (nextToken once_parser)) \<and>
   run_calls [CallPeek, CallPush 7] (snd (nextToken once_parser)) = Some consumed_parser \<and>
   next_token consumed_parser = Some (tok 2) \<and>
   NodeStart (heap (snd (newNode 5 consumed_parser)) ! fst (newNode 5 consumed_parser)) = Start (tok 1) \<and>
   (\<exists>n p'. addNodeHere 5 consumed_parser = Some (n, p') \<and> NodeStart (heap p' ! n) = Start (tok 1)) \<and>
   (\<exists>n p'. push 5 consumed_parser = Some (n, p') \<and> NodeStart (heap p' ! n) = Start (tok 1))"
proof -
  note c3 = C3_node_start[of "[CallPeek, CallPush 7]" 0 tok peeked_parser 5
      "[CallPeek, CallPush 7]" once_parser "tok 1" "snd (nextToken once_parser)" consumed_parser]
  have h1: "CallNext \<notin> set [CallPeek, CallPush (7::nat)] \<and>
            run_calls [CallPeek, CallPush 7] (NewParser 0 tok) = Some peeked_parser"
    by (intro conjI, simp, rule peeked_parser_fields(1))
  have h2: "CallNext \<notin> set [CallPeek, CallPush (7::nat)] \<and>
            nextToken once_parser = (tok 1, snd (nextToken once_parser)) \<and>
            run_calls [CallPeek, CallPush 7] (snd (nextToken once_parser)) = Some consumed_parser"
    by (intro conjI, simp, rule consumed_parser_fields(1), rule consumed_parser_fields(2))
  note r1 = c3[THEN conjunct1, THEN mp, OF h1]
  note r2 = c3[THEN conjunct2, THEN mp, OF h2]
  obtain n1 p1 where a1: "addNodeHere 5 peeked_parser = Some (n1, p1)"
    by (simp add: addNodeHere_def newNode_def deref_def Let_def peeked_parser_fields)
  obtain n2 p2 where a2: "push 5 peeked_parser = Some (n2, p2)"
    by (simp add: push_def addNodeHere_def newNode_def deref_def Let_def peeked_parser_fields)
  obtain n3 p3 where b1: "addNodeHere 5 consumed_parser = Some (n3, p3)"
    by (simp add: addNodeHere_def newNode_def deref_def Let_def consumed_parser_fields)
  obtain n4 p4 where b2: "push 5 consumed_parser = Some (n4, p4)"
    by (simp add: push_def addNodeHere_def newNode_def deref_def Let_def consumed_parser_fields)
  from r1 a1 have s1: "NodeStart (heap p1 ! n1) = zero_Position" by blast
  from r1 a2 have s2: "NodeStart (heap p2 ! n2) = zero_Position" by blast
  from r2 b1 have s3: "NodeStart (heap p3 ! n3) = Start (tok 1)" by blast
  from r2 b2 have s4: "NodeStart (heap p4 ! n4) = Start (tok 1)" by blast
  from r1 have s0: "NodeStart (heap (snd (newNode 5 peeked_parser)) ! fst (newNode 5 peeked_parser))
                     = zero_Position" by blast
  from r2 have s5: "NodeStart (heap (snd (newNode 5 consumed_parser)) ! fst (newNode 5 consumed_parser))
                     = Start (tok 1)" by blast
  show ?thesis
    using h1 h2 s0 s5 a1 s1 a2 s2 b1 s3 b2 s4 peeked_parser_fields(5) consumed_parser_fields(5)
    by blast
qed

text \<open>
  Claim C4, as stated: whenever the queue is non-empty at the top of the driver loop,
  \<open>NextToken\<close> pops and returns the front token, even when the state invocation that
  enqueued it also returned an error. It fails: over the input \<open>ab\<close>, \<open>lexEmitFail\<close> emits the
  token \<open>a\<close> and returns an error; \<open>NextToken\<close> returns an \<open>EOF\<close> token and leaves the token
  \<open>a\<close> in the queue, and the next call returns \<open>EOF\<close> again, the queue still holding \<open>a\<close>.
\<close>

theorem C4_counterexample:
  "map_option
     (\<lambda>(tkn, state, l).
        (Type tkn, map Value (buf l),
         map_option (\<lambda>(tkn2, state2, l2). (Type tkn2, map Value (buf l2)))
           (NextToken (Suc 0) no_cancel state l)))
     (NextToken (Suc 0) no_cancel (Some lexEmitFail) ab_lexer)
   = Some (TokenTypeEOF, [[97]], Some (TokenTypeEOF, [[97]]))"
  by (simp add: eval_driver)

text \<open>
  Claim C4, amended: the driver checks the sticky error before the queue. When the error
  is set at the start of \<open>NextToken\<close>, \<open>NextToken\<close> returns a synthesized \<open>EOF\<close> token whatever
  the queue holds; otherwise it enters its loop. On every pass of the loop: when the queue
  is non-empty at the top of the loop, the front token is popped and returned (an \<open>EOF\<close>
  token is returned without popping) and no state is run, whatever the state and the
  error are; when the queue is empty and the state is \<^verbatim>\<open>nil\<close>, a synthesized \<open>EOF\<close> token is
  returned; when the queue is empty and the context is cancelled, the cancellation is
  recorded and a synthesized \<open>EOF\<close> token is returned; otherwise the state is run, and when
  the sticky error is set after it (the state returned an error other than end of input)
  a synthesized \<open>EOF\<close> token is returned at once and the queue is left as it is, even when
  that invocation enqueued tokens; when no error is set after it, the loop goes on to its
  next pass, where tokens the invocation enqueued are found at the top of the loop. The
  loop is modelled with fuel; without fuel, an empty queue and a state left give no result.
\<close>

theorem C4_driver_order:
  "(err la \<noteq> None \<longrightarrow>
      NextToken fuel ctx state la = Some (newToken TokenTypeEOF la, state, la)) \<and>
   (err lb = None \<longrightarrow>
      NextToken fuel ctx state lb = NextToken_loop fuel ctx 0 state lb) \<and>
   (buf lq = tkn # rest \<longrightarrow>
      NextToken_loop fuel ctx i state lq =
        Some (tkn, state, if Type tkn \<noteq> TokenTypeEOF then lq\<lparr>buf := rest\<rparr> else lq)) \<and>
   (buf lc = [] \<and> ctx i = None \<and> Run s lc = ((state1, e1), l1) \<and>
    err (setErr e1 l1) \<noteq> None \<longrightarrow>
      NextToken_loop (Suc fuel) ctx i (Some s) lc =
        Some (newToken TokenTypeEOF (setErr e1 l1), state1, setErr e1 l1)) \<and>
   (buf ld = [] \<and> ctx i = None \<and> Run s' ld = ((state2, e2), l2) \<and>
    err (setErr e2 l2) = None \<longrightarrow>
      NextToken_loop (Suc fuel) ctx i (Some s') ld =
        NextToken_loop fuel ctx (Suc i) state2 (setErr e2 l2)) \<and>
   (buf lx = [] \<and> ctx' j = Some ce \<longrightarrow>
      NextToken_loop (Suc fuel) ctx' j (Some sx) lx =
        Some (newToken TokenTypeEOF (setErr (Some ce) lx), Some sx, setErr (Some ce) lx)) \<and>
   (buf le = [] \<longrightarrow>
      NextToken_loop fuel ctx i None le = Some (newToken TokenTypeEOF le, None, le)) \<and>
   (buf lz = [] \<longrightarrow> NextToken_loop 0 ctx i (Some sz) lz = None)"
proof (intro conjI impI)
  assume "err la \<noteq> None"
  then show "NextToken fuel ctx state la = Some (newToken TokenTypeEOF la, state, la)"
    by (simp add: NextToken_def)
next
  assume "err lb = None"
  then show "NextToken fuel ctx state lb = NextToken_loop fuel ctx 0 state lb"
    by (simp add: NextToken_def)
next
  assume a: "buf lq = tkn # rest"
  then have "NextToken_loop fuel ctx i state lq = Some (NextToken_return state lq)"
    by (simp add: NextToken_loop_queue)
  with a show "NextToken_loop fuel ctx i state lq =
        Some (tkn, state, if Type tkn \<noteq> TokenTypeEOF then lq\<lparr>buf := rest\<rparr> else lq)"
    by (simp add: NextToken_return_def)
next
  assume "buf lc = [] \<and> ctx i = None \<and> Run s lc = ((state1, e1), l1) \<and>
    err (setErr e1 l1) \<noteq> None"
  then show "NextToken_loop (Suc fuel) ctx i (Some s) lc =
        Some (newToken TokenTypeEOF (setErr e1 l1), state1, setErr e1 l1)"
    by (simp add: Let_def)
next
  assume "buf ld = [] \<and> ctx i = None \<and> Run s' ld = ((state2, e2), l2) \<and>
    err (setErr e2 l2) = None"
  then show "NextToken_loop (Suc fuel) ctx i (Some s') ld =
        NextToken_loop fuel ctx (Suc i) state2 (setErr e2 l2)"
    by (simp add: Let_def)
next
  assume "buf lx = [] \<and> ctx' j = Some ce"
  then show "NextToken_loop (Suc fuel) ctx' j (Some sx) lx =
        Some (newToken TokenTypeEOF (setErr (Some ce) lx), Some sx, setErr (Some ce) lx)"
    by (simp add: Let_def)
next
  assume "buf le = []"
  then show "NextToken_loop fuel ctx i None le = Some (newToken TokenTypeEOF le, None, le)"
    by (simp add: NextToken_loop_nil_state NextToken_return_def)
next
  assume "buf lz = []"
  then show "NextToken_loop 0 ctx i (Some sz) lz = None" by simp
qed

theorem C4_driver_order_witness:
  "err failed_lexer \<noteq> None \<and>
   NextToken 0 no_cancel (Some lexEmitFail) failed_lexer =
     Some (newToken TokenTypeEOF failed_lexer, Some lexEmitFail, failed_lexer) \<and>
   buf queued_lexer = [newToken (TokenTypeUser 1) running_lexer] \<and>
   NextToken 0 no_cancel (Some lexEmitFail) queued_lexer =
     Some (newToken (TokenTypeUser 1) running_lexer, Some lexEmitFail, queued_lexer\<lparr>buf := []\<rparr>) \<and>
   map Value (buf (snd (Run lexEmitFail ab_lexer))) = [[97]] \<and>
   NextToken (Suc 0) no_cancel (Some lexEmitFail) ab_lexer =
     Some (newToken TokenTypeEOF
             (setErr (Some (ErrorString ''unexpected rune'')) (snd (Run lexEmitFail ab_lexer))),
           None,
           setErr (Some (ErrorString ''unexpected rune'')) (snd (Run lexEmitFail ab_lexer))) \<and>
   NextToken (Suc (Suc 0)) no_cancel (Some lexHandover) ab_lexer =
     Some (newToken TokenTypeEOF
             (setErr (Some (ErrorString ''unexpected rune'')) (snd (Run lexEmitFail ab_lexer))),
           None,
           setErr (Some (ErrorString ''unexpected rune'')) (snd (Run lexEmitFail ab_lexer))) \<and>
   NextToken (Suc 0) no_cancel (Some lexEmitEOF) ab_lexer =
     Some (newToken (TokenTypeUser 1) running_lexer, None,
           (snd (Run lexEmitEOF ab_lexer))\<lparr>buf := []\<rparr>) \<and>
   NextToken (Suc 0) cancelled (Some lexEmitFail) ab_lexer =
     Some (newToken TokenTypeEOF (setErr (Some context_Canceled) ab_lexer), Some lexEmitFail,
           setErr (Some context_Canceled) ab_lexer) \<and>
   NextToken 0 no_cancel None empty_lexer = Some (newToken TokenTypeEOF empty_lexer, None, empty_lexer) \<and>
   NextToken 0 no_cancel (Some lexEmitFail) ab_lexer = None"
proof -
  let ?fail = "Some (ErrorString ''unexpected rune'')"
  let ?lf = "snd (Run lexEmitFail ab_lexer)"
  let ?le = "snd (Run lexEmitEOF ab_lexer)"
  have runF: "Run lexEmitFail ab_lexer = ((None, ?fail), ?lf)"
    using Run_lexEmitFail(1) by (simp add: prod_eq_iff)
  have runE: "Run lexEmitEOF ab_lexer = ((None, Some io_EOF), ?le)"
    using Run_lexEmitEOF(1) by (simp add: prod_eq_iff)
  have errF: "err (setErr ?fail ?lf) \<noteq> None"
    using Run_lexEmitFail(2) by (simp add: setErr_def errors_Is_def)
  have setE: "setErr (Some io_EOF) ?le = ?le"
    by (simp add: setErr_def errors_Is_def)
  have setN: "setErr None ab_lexer = ab_lexer"
    by (simp add: setErr_def errors_Is_def ab_lexer_fields)
  \<comment> \<open>the error is set on entry\<close>
  have w1: "NextToken 0 no_cancel (Some lexEmitFail) failed_lexer =
     Some (newToken TokenTypeEOF failed_lexer, Some lexEmitFail, failed_lexer)"
    using C4_driver_order[of failed_lexer 0 no_cancel "Some lexEmitFail"]
    by (simp add: failed_lexer_fields)
  \<comment> \<open>no error, a token in the queue\<close>
  have w2: "NextToken 0 no_cancel (Some lexEmitFail) queued_lexer =
     Some (newToken (TokenTypeUser 1) running_lexer, Some lexEmitFail, queued_lexer\<lparr>buf := []\<rparr>)"
    using C4_driver_order[of _ 0 no_cancel "Some lexEmitFail" queued_lexer queued_lexer
        "newToken (TokenTypeUser 1) running_lexer" "[]" 0]
    by (simp add: queued_lexer_fields newToken_def)
  \<comment> \<open>the state of the first pass enqueues a token and returns an error\<close>
  have p1: "NextToken_loop (Suc 0) no_cancel i (Some lexEmitFail) ab_lexer =
     Some (newToken TokenTypeEOF (setErr ?fail ?lf), None, setErr ?fail ?lf)" for i
    using C4_driver_order[of _ 0 no_cancel _ _ _ _ _ i ab_lexer lexEmitFail None ?fail ?lf]
      runF errF
    by (simp add: ab_lexer_fields no_cancel_def)
  have w3: "NextToken (Suc 0) no_cancel (Some lexEmitFail) ab_lexer =
     Some (newToken TokenTypeEOF (setErr ?fail ?lf), None, setErr ?fail ?lf)"
    using C4_driver_order[of _ "Suc 0" no_cancel "Some lexEmitFail" ab_lexer] p1[of 0]
    by (simp add: ab_lexer_fields)
  \<comment> \<open>the same state on the second pass\<close>
  have p2: "NextToken_loop (Suc (Suc 0)) no_cancel 0 (Some lexHandover) ab_lexer =
     NextToken_loop (Suc 0) no_cancel (Suc 0) (Some lexEmitFail) ab_lexer"
    using C4_driver_order[of _ "Suc 0" no_cancel _ _ _ _ _ 0 _ _ _ _ _
        ab_lexer lexHandover "Some lexEmitFail" None ab_lexer]
      Run_lexHandover[of ab_lexer] setN
    by (simp add: ab_lexer_fields no_cancel_def)
  have w4: "NextToken (Suc (Suc 0)) no_cancel (Some lexHandover) ab_lexer =
     Some (newToken TokenTypeEOF (setErr ?fail ?lf), None, setErr ?fail ?lf)"
    using C4_driver_order[of _ "Suc (Suc 0)" no_cancel "Some lexHandover" ab_lexer] p2 p1[of "Suc 0"]
    by (simp add: ab_lexer_fields)
  \<comment> \<open>the state enqueues a token and ends the input\<close>
  have p3: "NextToken_loop (Suc 0) no_cancel 0 (Some lexEmitEOF) ab_lexer =
     NextToken_loop 0 no_cancel (Suc 0) None ?le"
    using C4_driver_order[of _ 0 no_cancel _ _ _ _ _ 0 _ _ _ _ _
        ab_lexer lexEmitEOF None "Some io_EOF" ?le]
      runE setE Run_lexEmitEOF(2)
    by (simp add: ab_lexer_fields no_cancel_def)
  have p4: "NextToken_loop 0 no_cancel (Suc 0) None ?le =
     Some (newToken (TokenTypeUser 1) running_lexer, None, ?le\<lparr>buf := []\<rparr>)"
    using C4_driver_order[of _ 0 no_cancel None _ ?le
        "newToken (TokenTypeUser 1) running_lexer" "[]" "Suc 0"]
      Run_lexEmitEOF(3)
    by (simp add: newToken_def)
  have w5: "NextToken (Suc 0) no_cancel (Some lexEmitEOF) ab_lexer =
     Some (newToken (TokenTypeUser 1) running_lexer, None, ?le\<lparr>buf := []\<rparr>)"
    using C4_driver_order[of _ "Suc 0" no_cancel "Some lexEmitEOF" ab_lexer] p3 p4
    by (simp add: ab_lexer_fields)
  \<comment> \<open>the context is cancelled\<close>
  have p5: "NextToken_loop (Suc 0) cancelled 0 (Some lexEmitFail) ab_lexer =
     Some (newToken TokenTypeEOF (setErr (Some context_Canceled) ab_lexer), Some lexEmitFail,
           setErr (Some context_Canceled) ab_lexer)"
    using C4_driver_order[of _ 0 _ _ _ _ _ _ _ _ _ _ _ _ _ _ _ _ _
        ab_lexer cancelled 0 context_Canceled lexEmitFail]
    by (simp add: ab_lexer_fields cancelled_def)
  have w6: "NextToken (Suc 0) cancelled (Some lexEmitFail) ab_lexer =
     Some (newToken TokenTypeEOF (setErr (Some context_Canceled) ab_lexer), Some lexEmitFail,
           setErr (Some context_Canceled) ab_lexer)"
    using C4_driver_order[of _ "Suc 0" cancelled "Some lexEmitFail" ab_lexer] p5
    by (simp add: ab_lexer_fields)
  \<comment> \<open>no state is left\<close>
  have w7: "NextToken 0 no_cancel None empty_lexer =
     Some (newToken TokenTypeEOF empty_lexer, None, empty_lexer)"
    using C4_driver_order[of _ 0 no_cancel None empty_lexer _ _ _ 0 _ _ _ _ _ _ _ _ _ _ _ _ _ _ _
        empty_lexer]
    by (simp add: ab_lexer_fields)
  \<comment> \<open>the fuel is used up\<close>
  have w8: "NextToken 0 no_cancel (Some lexEmitFail) ab_lexer = None"
    using C4_driver_order[of _ 0 no_cancel "Some lexEmitFail" ab_lexer _ _ _ 0 _ _ _ _ _ _ _ _ _ _
        _ _ _ _ _ _ ab_lexer lexEmitFail]
    by (simp add: ab_lexer_fields)
  from w1 w2 w3 w4 w5 w6 w7 w8 show ?thesis
    by (simp add: failed_lexer_fields queued_lexer_fields Run_lexEmitFail)
qed

text \<open>
  Claim C5, as stated: after every call to \<open>emit\<close> and after every call to \<open>ignore\<close> the token
  cursor equals the reader position and the in-progress text is empty (the width is 0),
  whatever cursor operations came before. It fails for \<open>emit\<close> once the sticky error is
  set: \<open>failed_lexer\<close> has advanced over one rune and then met an I/O failure, and \<open>emit\<close>
  leaves its cursor behind the reader position and its text non-empty.
\<close>

theorem C5_counterexample:
  "\<not> (cursor (snd (emit (TokenTypeUser 1) failed_lexer)) = pos (snd (emit (TokenTypeUser 1) failed_lexer)) \<and>
      b (snd (emit (TokenTypeUser 1) failed_lexer)) = [] \<and>
      Width (snd (emit (TokenTypeUser 1) failed_lexer)) = 0)"
  by (simp add: emit_def failed_lexer_fields Width_def)

text \<open>
  Claim C5, amended: after every call to \<open>ignore\<close>, and after every call to \<open>emit\<close> made
  while no sticky error is set, the token cursor equals the reader position and the
  in-progress text is empty (the width is 0); \<open>emit\<close> then returns the new token and
  enqueues it. With the sticky error set, \<open>emit\<close> changes nothing.
\<close>

theorem C5_ignore_and_emit:
  "cursor (ignore l) = pos (ignore l) \<and> b (ignore l) = [] \<and> Width (ignore l) = 0 \<and>
   (err l = None \<longrightarrow>
      fst (emit typ l) = Some (newToken typ l) \<and>
      buf (snd (emit typ l)) = buf l @ [newToken typ l] \<and>
      cursor (snd (emit typ l)) = pos (snd (emit typ l)) \<and>
      b (snd (emit typ l)) = [] \<and> Width (snd (emit typ l)) = 0) \<and>
   (err l' \<noteq> None \<longrightarrow> snd (emit typ l') = l')"
  by (simp add: ignore_def emit_def Width_def Let_def)

theorem C5_ignore_and_emit_witness:
  "cursor (ignore running_lexer) = pos (ignore running_lexer) \<and> b (ignore running_lexer) = [] \<and>
   Width (ignore running_lexer) = 0 \<and>
   err running_lexer = None \<and>
   fst (emit (TokenTypeUser 1) running_lexer) = Some (newToken (TokenTypeUser 1) running_lexer) \<and>
   buf (snd (emit (TokenTypeUser 1) running_lexer)) = [newToken (TokenTypeUser 1) running_lexer] \<and>
   cursor (snd (emit (TokenTypeUser 1) running_lexer)) = pos (snd (emit (TokenTypeUser 1) running_lexer)) \<and>
   b (snd (emit (TokenTypeUser 1) running_lexer)) = [] \<and>
   Width (snd (emit (TokenTypeUser 1) running_lexer)) = 0 \<and>
   err failed_lexer \<noteq> None \<and> snd (emit (TokenTypeUser 1) failed_lexer) = failed_lexer"
  using C5_ignore_and_emit[of running_lexer "TokenTypeUser 1" failed_lexer]
  by (simp add: running_lexer_fields failed_lexer_fields)

text \<open>
  Claim C6. Every rune consumed through a consuming operation (\<open>nextRune\<close>, \<open>advance\<close> and
  the context's \<open>Advance\<close>, \<open>AdvanceN\<close>, \<open>Discard\<close>, \<open>DiscardN\<close>, and the scanning of \<open>find'\<close>
  and \<open>discardTo\<close>) moves the reader position by one step of \<open>consume_rune\<close>: the offset
  grows by exactly 1 and the column by 1, and for a newline the line grows by 1 and the
  column is reset to 1 at that same step. \<open>tracks\<close> says that the position after the
  operation is the position before it moved over exactly the runes taken from the reader.
  Consuming nothing (\<open>nextRune\<close> answering the \<open>EOF\<close> sentinel) changes no coordinate.
\<close>

theorem C6_coordinates:
  "Offset (consume_rune rn p) = Offset p + 1 \<and>
   Line (consume_rune rn p) = (if rn = 10 then Line p + 1 else Line p) \<and>
   Column (consume_rune rn p) = (if rn = 10 then 1 else Column p + 1) \<and>
   Filename (consume_rune rn p) = Filename p \<and>
   tracks l (snd (nextRune l)) \<and>
   (err l = None \<and> upcoming (r l) \<noteq> [] \<longrightarrow>
      fst (nextRune l) = hd (upcoming (r l)) \<and>
      consumed_between l (snd (nextRune l)) = [hd (upcoming (r l))]) \<and>
   (err l' \<noteq> None \<or> upcoming (r l') = [] \<longrightarrow>
      fst (nextRune l') = EOF \<and> consumed_between l' (snd (nextRune l')) = [] \<and>
      pos (snd (nextRune l')) = pos l') \<and>
   tracks l (snd (advance n discard l)) \<and>
   consumed_between l (snd (advance n discard l)) = take (fst (advance n discard l)) (upcoming (r l)) \<and>
   tracks l (snd (Advance l)) \<and> tracks l (snd (AdvanceN n l)) \<and>
   tracks l (snd (Discard l)) \<and> tracks l (snd (DiscardN n l)) \<and>
   tracks l (snd (find' query l)) \<and> tracks l (snd (discardTo query l))"
proof (intro conjI impI)
  show "Offset (consume_rune rn p) = Offset p + 1"
    "Line (consume_rune rn p) = (if rn = 10 then Line p + 1 else Line p)"
    "Column (consume_rune rn p) = (if rn = 10 then 1 else Column p + 1)"
    "Filename (consume_rune rn p) = Filename p"
    by (simp_all add: consume_rune_def Let_def)
  show "tracks l (snd (nextRune l))" by (rule tracks_nextRune)
  show "tracks l (snd (advance n discard l))"
    "consumed_between l (snd (advance n discard l)) = take (fst (advance n discard l)) (upcoming (r l))"
    using tracks_advance[of l n discard] by simp_all
  show "tracks l (snd (Advance l))"
    using tracks_advance[of l 1 False] by (simp add: Advance_def split_beta)
  show "tracks l (snd (AdvanceN n l))"
    using tracks_advance[of l n False] by (simp add: AdvanceN_def)
  show "tracks l (snd (Discard l))"
    using tracks_advance[of l 1 True] by (simp add: Discard_def split_beta)
  show "tracks l (snd (DiscardN n l))"
    using tracks_advance[of l n True] by (simp add: DiscardN_def)
  show "tracks l (snd (find' query l))"
    by (simp add: find'_def Let_def tracks_refl tracks_find_loop)
  show "tracks l (snd (discardTo query l))"
    by (simp add: discardTo_def Let_def tracks_refl tracks_discardTo_loop)
next
  assume a: "err l = None \<and> upcoming (r l) \<noteq> []"
  then show "fst (nextRune l) = hd (upcoming (r l))"
    by (auto simp: nextRune_def RuneReader_ReadRune_def Let_def split: list.splits)
  from a show "consumed_between l (snd (nextRune l)) = [hd (upcoming (r l))]"
    by (auto simp: nextRune_def RuneReader_ReadRune_def Let_def consumed_between_def
             split: list.splits)
next
  assume a: "err l' \<noteq> None \<or> upcoming (r l') = []"
  then show "fst (nextRune l') = EOF"
    by (auto simp: nextRune_def RuneReader_ReadRune_def Let_def split: list.splits)
  from a show "consumed_between l' (snd (nextRune l')) = []"
    by (auto simp: nextRune_def RuneReader_ReadRune_def Let_def consumed_between_def setErr_def
             split: list.splits)
  from a show "pos (snd (nextRune l')) = pos l'"
    by (auto simp: nextRune_def RuneReader_ReadRune_def Let_def setErr_def split: list.splits)
qed

theorem C6_coordinates_witness:
  "consume_rune 10 \<lparr>Filename = [], Offset = 1, Line = 1, Column = 2\<rparr>
     = \<lparr>Filename = [], Offset = 2, Line = 2, Column = 1\<rparr> \<and>
   tracks newline_lexer (snd (nextRune newline_lexer)) \<and>
   fst (nextRune newline_lexer) = 97 \<and>
   consumed_between newline_lexer (snd (nextRune newline_lexer)) = [97] \<and>
   fst (nextRune empty_lexer) = EOF \<and>
   consumed_between empty_lexer (snd (nextRune empty_lexer)) = [] \<and>
   pos (snd (nextRune empty_lexer)) = pos empty_lexer \<and>
   tracks newline_lexer (snd (advance 2 True newline_lexer)) \<and>
   consumed_between newline_lexer (snd (advance 2 True newline_lexer)) = [97, 10] \<and>
   pos (snd (advance 2 True newline_lexer)) = \<lparr>Filename = [], Offset = 2, Line = 2, Column = 1\<rparr> \<and>
   tracks newline_lexer (snd (find' [[98]] newline_lexer)) \<and>
   tracks newline_lexer (snd (discardTo [[98]] newline_lexer))"
proof -
  note c6 = C6_coordinates[of 10 "\<lparr>Filename = [], Offset = 1, Line = 1, Column = 2\<rparr>"
      newline_lexer empty_lexer 2 True "[[98]]"]
  have adv: "fst (advance 2 True newline_lexer) = 2"
    by (simp add: eval_cursor newline_lexer_def)
  from c6 have t: "tracks newline_lexer (snd (advance 2 True newline_lexer))"
    and cb: "consumed_between newline_lexer (snd (advance 2 True newline_lexer)) = [97, 10]"
    by (simp_all add: adv newline_lexer_fields)
  from t cb have p: "pos (snd (advance 2 True newline_lexer))
      = \<lparr>Filename = [], Offset = 2, Line = 2, Column = 1\<rparr>"
    by (simp add: tracks_def newline_lexer_fields consume_rune_def Let_def)
  from c6 have cr: "consume_rune 10 \<lparr>Filename = [], Offset = 1, Line = 1, Column = 2\<rparr>
     = \<lparr>Filename = [], Offset = 2, Line = 2, Column = 1\<rparr>"
    by (intro Position.equality) simp_all
  from c6 t cb p cr show ?thesis
    by (simp add: newline_lexer_fields)
qed

text \<open>
  Claim C7. For every cursor state, \<open>find'\<close> and \<open>discardTo\<close> with an empty needle set, or
  with a set whose needles are all empty strings, return the empty string at once and
  leave the lexer as it was: the reader position, the token cursor and the in-progress
  buffer do not change.
\<close>

theorem C7_empty_needles:
  "\<forall>q \<in> set query. q = [] \<Longrightarrow> find' query l = ([], l) \<and> discardTo query l = ([], l)"
  by (simp add: find'_def discardTo_def maxLen_of_all_empty)

theorem C7_empty_needles_witness:
  "find' [[], []] running_lexer = ([], running_lexer) \<and>
   discardTo [[], []] running_lexer = ([], running_lexer)"
  using C7_empty_needles[of "[[], []]" running_lexer]
  by simp

text \<open>
  Claim C8, as stated: \<open>replace v\<close> returns the previous value of the current node \<open>n\<close>, and
  afterwards the current node has the value \<open>v\<close>, the parent and the children of \<open>n\<close>, and
  the tree is otherwise unchanged except for the replaced value. It fails on the start
  position: the new node is made by \<open>newNode\<close>, so its start is that of the last consumed
  token and not that of \<open>n\<close>. Replacing the first root, which starts at line 1, column 1,
  before any token is consumed gives a root that starts at line 0, column 0.
\<close>

theorem C8_counterexample:
  "NodeStart (heap (NewParser (0::nat) tok) ! 0) = \<lparr>Filename = [], Offset = 0, Line = 1, Column = 1\<rparr> \<and>
   map_option (\<lambda>(old, p'). (old, root p', node p', NodeStart (heap p' ! 1)))
     (replace 30 (NewParser (0::nat) tok))
   = Some (0, Some 1, Some 1, \<lparr>Filename = [], Offset = 0, Line = 0, Column = 0\<rparr>)"
  by (simp add: eval_parser)

text \<open>
  Claim C8, amended: for every parser whose current node \<open>n\<close> is in the heap and is not its
  own parent, \<open>replace v\<close> returns the previous value of \<open>n\<close>; afterwards the current node is
  a new node with the value \<open>v\<close>, the parent link of \<open>n\<close> and the ordered children of \<open>n\<close>,
  every child's parent is the new node, the parent's first entry for \<open>n\<close> is the new node,
  the root is the new node when \<open>n\<close> was the root, and every other node keeps its value,
  start, parent and children. The start of the new node is not that of \<open>n\<close>: it is the
  start of the last consumed token, or the zero position when none has been consumed.
\<close>

theorem C8_replace:
  assumes "node p = Some cur" and "cur < length (heap p)"
    and "valid_refs (heap p)" and "Parent (heap p ! cur) \<noteq> Some cur"
  shows "\<exists>p'. replace v p = Some (NodeValue (heap p ! cur), p') \<and>
     node p' = Some (length (heap p)) \<and>
     length (heap p') = length (heap p) + 1 \<and>
     NodeValue (heap p' ! length (heap p)) = v \<and>
     Parent (heap p' ! length (heap p)) = Parent (heap p ! cur) \<and>
     Children (heap p' ! length (heap p)) = Children (heap p ! cur) \<and>
     NodeStart (heap p' ! length (heap p)) =
       (case token p of None \<Rightarrow> zero_Position | Some t \<Rightarrow> Start t) \<and>
     (\<forall>c \<in> child_set (heap p ! cur). Parent (heap p' ! c) = Some (length (heap p))) \<and>
     (\<forall>par. Parent (heap p ! cur) = Some par \<longrightarrow>
        Children (heap p' ! par) =
          map_option (replace_first cur (length (heap p))) (Children (heap p ! par))) \<and>
     root p' = (if root p = Some cur then Some (length (heap p)) else root p) \<and>
     (\<forall>x < length (heap p).
        NodeValue (heap p' ! x) = NodeValue (heap p ! x) \<and>
        NodeStart (heap p' ! x) = NodeStart (heap p ! x) \<and>
        (x \<notin> child_set (heap p ! cur) \<longrightarrow> Parent (heap p' ! x) = Parent (heap p ! x)) \<and>
        (Parent (heap p ! cur) \<noteq> Some x \<longrightarrow> Children (heap p' ! x) = Children (heap p ! x))) \<and>
     tokens p' = tokens p \<and> fetched p' = fetched p \<and> token p' = token p \<and>
     next_token p' = next_token p"
proof -
  from replace_heap[OF assms, of v] obtain h3 where
    r: "replace v p =
            Some (NodeValue (heap p ! cur),
                  p\<lparr>heap := h3,
                    root := (if root p = Some cur then Some (length (heap p)) else root p),
                    node := Some (length (heap p))\<rparr>)"
    and len: "length h3 = length (heap p) + 1"
    and new: "h3 ! length (heap p) =
            \<lparr> Parent = Parent (heap p ! cur), Children = Children (heap p ! cur), NodeValue = v,
              NodeStart = (case token p of None \<Rightarrow> zero_Position | Some t \<Rightarrow> Start t) \<rparr>"
    and old: "\<forall>x < length (heap p).
             h3 ! x = (heap p ! x)
               \<lparr>Parent := (if x \<in> child_set (heap p ! cur) then Some (length (heap p))
                            else Parent (heap p ! x)),
                Children := (if Parent (heap p ! cur) = Some x
                             then map_option (replace_first cur (length (heap p))) (Children (heap p ! x))
                             else Children (heap p ! x))\<rparr>"
    by blast
  have kids: "\<forall>c \<in> child_set (heap p ! cur). c < length (heap p)"
    using valid_refs_Children[OF assms(3) assms(2)]
    by (auto simp: child_set_def split: option.splits)
  have par: "\<forall>par. Parent (heap p ! cur) = Some par \<longrightarrow> par < length (heap p)"
    using valid_refs_Parent[OF assms(3) assms(2)] by blast
  show ?thesis
    using r len new old kids par
    by (intro exI[of _ "p\<lparr>heap := h3,
                    root := (if root p = Some cur then Some (length (heap p)) else root p),
                    node := Some (length (heap p))\<rparr>"]) simp
qed

theorem C8_replace_witness:
  "\<exists>p'. replace 30 example_parser = Some (10, p') \<and>
     node p' = Some 3 \<and> root p' = Some 0 \<and> length (heap p') = 4 \<and>
     NodeValue (heap p' ! 3) = 30 \<and> Parent (heap p' ! 3) = Some 0 \<and>
     Children (heap p' ! 3) = Some [2] \<and> NodeStart (heap p' ! 3) = Start (tok 1) \<and>
     Parent (heap p' ! 2) = Some 3 \<and> Children (heap p' ! 0) = Some [3] \<and>
     NodeValue (heap p' ! 0) = 0 \<and> NodeValue (heap p' ! 2) = 20 \<and>
     Parent (heap p' ! 0) = None \<and> Children (heap p' ! 2) = None"
proof -
  have v: "valid_refs (heap example_parser)"
    by (simp add: valid_refs_def example_parser_fields)
  have h: "node example_parser = Some 1" "1 < length (heap example_parser)"
    "Parent (heap example_parser ! 1) \<noteq> Some 1"
    by (simp_all add: example_parser_fields)
  have len: "length (heap example_parser) = 3"
    by (simp add: example_parser_fields)
  have cur: "heap example_parser ! 1 =
      \<lparr>Parent = Some 0, Children = Some [2], NodeValue = 10,
        NodeStart = \<lparr>Filename = [], Offset = 0, Line = 1, Column = 1\<rparr>\<rparr>"
    by (simp add: example_parser_fields)
  from C8_replace[OF h(1,2) v h(3), of 30, unfolded len cur] obtain p' where
    p: "replace 30 example_parser = Some (10, p')"
      "node p' = Some 3" "length (heap p') = 3 + 1"
      "NodeValue (heap p' ! 3) = 30" "Parent (heap p' ! 3) = Some 0"
      "Children (heap p' ! 3) = Some [2]"
      "NodeStart (heap p' ! 3) = (case token example_parser of None \<Rightarrow> zero_Position | Some t \<Rightarrow> Start t)"
    and kids: "\<forall>c \<in> child_set \<lparr>Parent = Some 0, Children = Some [2], NodeValue = 10::nat,
        NodeStart = \<lparr>Filename = [], Offset = 0, Line = 1, Column = 1\<rparr>\<rparr>. Parent (heap p' ! c) = Some 3"
    and par: "\<forall>par. Some 0 = Some par \<longrightarrow>
        Children (heap p' ! par) = map_option (replace_first 1 3) (Children (heap example_parser ! par))"
    and rt: "root p' = (if root example_parser = Some 1 then Some 3 else root example_parser)"
    and rest: "\<forall>x < 3.
        NodeValue (heap p' ! x) = NodeValue (heap example_parser ! x) \<and>
        NodeStart (heap p' ! x) = NodeStart (heap example_parser ! x) \<and>
        (x \<notin> child_set \<lparr>Parent = Some 0, Children = Some [2], NodeValue = 10::nat,
        NodeStart = \<lparr>Filename = [], Offset = 0, Line = 1, Column = 1\<rparr>\<rparr> \<longrightarrow> Parent (heap p' ! x) = Parent (heap example_parser ! x)) \<and>
        (Some 0 \<noteq> Some x \<longrightarrow> Children (heap p' ! x) = Children (heap example_parser ! x))"
    by auto
  from kids have k2: "Parent (heap p' ! 2) = Some 3" by (simp add: child_set_def)
  from par have c0: "Children (heap p' ! 0) = Some [3]"
    by (simp add: example_parser_fields)
  from rest[rule_format, of 0] have x0: "NodeValue (heap p' ! 0) = 0" "Parent (heap p' ! 0) = None"
    by (simp_all add: example_parser_fields child_set_def)
  from rest[rule_format, of 2] have x2: "NodeValue (heap p' ! 2) = 20" "Children (heap p' ! 2) = None"
    by (simp_all add: example_parser_fields)
  from p k2 c0 x0 x2 rt show ?thesis
    by (intro exI[of _ p']) (simp add: example_parser_fields)
qed

text \<open>
  Claim C9. Once the cursor has recorded an I/O error (an error of the underlying reader
  other than end of input), the error is sticky: every later peek returns no runes (the
  \<open>EOF\<close> sentinel), every advance and discard returns 0 and moves nothing, the searches
  return empty, and the error accessor returns the first recorded error, which no later
  error replaces. An end-of-input condition alone is never recorded: \<open>setErr\<close> drops it, and
  no cursor operation over a reader that ends with end of input sets the error.
\<close>

theorem C9_sticky_error:
  "(err l = Some e \<longrightarrow>
      peekN n l = ([], l) \<and> PeekN n l = ([], l) \<and> Peek l = (EOF, l) \<and>
      nextRune l = (EOF, l) \<and>
      advance n discard l = (0, l) \<and> Advance l = (False, l) \<and> AdvanceN n l = (0, l) \<and>
      Discard l = (False, l) \<and> DiscardN n l = (0, l) \<and>
      find' query l = ([], l) \<and> discardTo query l = ([], l) \<and>
      Err l = Some e \<and> Err (setErr e' l) = Some e) \<and>
   (err l' = None \<and> \<not> errors_Is (Some e) io_EOF \<longrightarrow> Err (setErr (Some e) l') = Some e) \<and>
   (errors_Is e' io_EOF \<longrightarrow> setErr e' l' = l') \<and>
   (err l' = None \<and> errors_Is (Some (ending (r l'))) io_EOF \<longrightarrow>
      Err (snd (peekN n l')) = None \<and> Err (snd (nextRune l')) = None \<and>
      Err (snd (advance n discard l')) = None \<and>
      Err (snd (find' query l')) = None \<and> Err (snd (discardTo query l')) = None)"
proof (intro conjI impI)
  assume e: "err l = Some e"
  show "peekN n l = ([], l)" by (rule sticky_peekN[OF e])
  show "PeekN n l = ([], l)" by (simp add: PeekN_def sticky_peekN[OF e])
  show "Peek l = (EOF, l)" by (simp add: Peek_def sticky_peekN[OF e])
  show "nextRune l = (EOF, l)" using e by (simp add: nextRune_def)
  show "advance n discard l = (0, l)" by (rule sticky_advance[OF e])
  show "Advance l = (False, l)" by (simp add: Advance_def sticky_advance[OF e])
  show "AdvanceN n l = (0, l)" by (simp add: AdvanceN_def sticky_advance[OF e])
  show "Discard l = (False, l)" by (simp add: Discard_def sticky_advance[OF e])
  show "DiscardN n l = (0, l)" by (simp add: DiscardN_def sticky_advance[OF e])
  show "find' query l = ([], l)" by (rule sticky_find[OF e])
  show "discardTo query l = ([], l)" by (rule sticky_discardTo[OF e])
  show "Err l = Some e" using e by (simp add: Err_def)
  show "Err (setErr e' l) = Some e" using e by (simp add: Err_def setErr_def)
next
  assume "err l' = None \<and> \<not> errors_Is (Some e) io_EOF"
  then show "Err (setErr (Some e) l') = Some e" by (simp add: Err_def setErr_def)
next
  assume "errors_Is e' io_EOF"
  then show "setErr e' l' = l'" by (rule setErr_EOF)
next
  assume a: "err l' = None \<and> errors_Is (Some (ending (r l'))) io_EOF"
  then have e: "err l' = None" and u: "unwraps_to (ending (r l')) io_EOF"
    by (simp_all add: errors_Is_def)
  show "Err (snd (peekN n l')) = None"
    using peekN_clean[OF e u, of n "fst (peekN n l')" "snd (peekN n l')"] by (simp add: Err_def)
  show "Err (snd (nextRune l')) = None"
    using nextRune_clean[OF e u, of "fst (nextRune l')" "snd (nextRune l')"] by (simp add: Err_def)
  show "Err (snd (advance n discard l')) = None"
    using advance_clean[OF e u, of n discard "fst (advance n discard l')" "snd (advance n discard l')"]
    by (simp add: Err_def)
  show "Err (snd (find' query l')) = None"
    using find_loop_clean[OF e u, of "maxLen_of query 0" query
            "fst (find_loop (maxLen_of query 0) query l')" "snd (find_loop (maxLen_of query 0) query l')"] e
    by (simp add: Err_def find'_def Let_def)
  show "Err (snd (discardTo query l')) = None"
    using discardTo_loop_clean[OF e u, of "maxLen_of query 0" query
            "fst (discardTo_loop (maxLen_of query 0) query l')"
            "snd (discardTo_loop (maxLen_of query 0) query l')"] e
    by (simp add: Err_def discardTo_def Let_def)
qed

theorem C9_sticky_error_witness:
  "err failed_lexer = Some (ErrorString ''read failed'') \<and>
   peekN 2 failed_lexer = ([], failed_lexer) \<and> PeekN 2 failed_lexer = ([], failed_lexer) \<and>
   Peek failed_lexer = (EOF, failed_lexer) \<and> nextRune failed_lexer = (EOF, failed_lexer) \<and>
   advance 2 True failed_lexer = (0, failed_lexer) \<and> Advance failed_lexer = (False, failed_lexer) \<and>
   AdvanceN 2 failed_lexer = (0, failed_lexer) \<and>
   Discard failed_lexer = (False, failed_lexer) \<and> DiscardN 2 failed_lexer = (0, failed_lexer) \<and>
   find' [[98]] failed_lexer = ([], failed_lexer) \<and> discardTo [[98]] failed_lexer = ([], failed_lexer) \<and>
   Err failed_lexer = Some (ErrorString ''read failed'') \<and>
   Err (setErr (Some io_EOF) failed_lexer) = Some (ErrorString ''read failed'') \<and>
   err running_lexer = None \<and>
   Err (setErr (Some (ErrorString ''read failed'')) running_lexer) = Some (ErrorString ''read failed'') \<and>
   setErr (Some io_EOF) running_lexer = running_lexer \<and>
   Err (snd (peekN 2 running_lexer)) = None \<and> Err (snd (nextRune running_lexer)) = None \<and>
   Err (snd (advance 2 True running_lexer)) = None \<and>
   Err (snd (find' [[98]] running_lexer)) = None \<and> Err (snd (discardTo [[98]] running_lexer)) = None"
  using C9_sticky_error[of failed_lexer "ErrorString ''read failed''" 2 True "[[98]]" "Some io_EOF"
          running_lexer]
  by (simp add: failed_lexer_fields running_lexer_fields errors_Is_def)

text \<open>
  Claim C10. When the lexer's sticky error is already set, \<open>emit\<close> (and \<open>Emit\<close> of the
  context) is a no-op: it returns the \<^verbatim>\<open>nil\<close> token, enqueues nothing and leaves the token
  cursor, the reader position and the in-progress buffer as they were.
\<close>

theorem C10_emit_with_error:
  "err l \<noteq> None \<Longrightarrow> emit typ l = (None, l) \<and> Emit typ l = (None, l)"
  by (simp add: emit_def Emit_def)

theorem C10_emit_with_error_witness:
  "err failed_lexer \<noteq> None \<and>
   emit (TokenTypeUser 1) failed_lexer = (None, failed_lexer) \<and>
   Emit (TokenTypeUser 1) failed_lexer = (None, failed_lexer)"
  using C10_emit_with_error[of failed_lexer "TokenTypeUser 1"]
  by (simp add: failed_lexer_fields)

end
